theory Spec2Isabelle
  imports Main "HOL-Library.Sublist" "HOL-Library.AList"
begin

section \<open>JavaScript strings\<close>

text \<open>
  A JavaScript string is a sequence of UTF-16 code units.  Every character of the
  delimiter pools lies in the Basic Multilingual Plane, so each is one code unit.
  \<open>s.includes(p)\<close> is \<^const>\<open>sublist\<close> \<open>p s\<close>, \<open>s.startsWith(p)\<close> is
  \<^const>\<open>prefix\<close> \<open>p s\<close> and \<open>s.endsWith(p)\<close> is \<^const>\<open>suffix\<close> \<open>p s\<close>.
\<close>

type_synonym jsstring = "nat list"

definition str :: "string \<Rightarrow> jsstring" where
  "str s = map of_char s"

section \<open>Delimiter pools and marker generation\<close>

record delimiter_set =
  d_open :: jsstring
  d_close :: jsstring
  d_mid :: jsstring

definition DELIMITER_SETS :: "delimiter_set list" where
  "DELIMITER_SETS =
    [\<lparr>d_open = [0x0F12], d_close = [0x0F12], d_mid = [0x0FC7]\<rparr>,
     \<lparr>d_open = [0xA9C1], d_close = [0xA9C2], d_mid = [0x0FD4]\<rparr>,
     \<lparr>d_open = [0x1392], d_close = [0x1392], d_mid = [0x1393]\<rparr>,
     \<lparr>d_open = [0xA188], d_close = [0xA188], d_mid = [0xA2B0]\<rparr>,
     \<lparr>d_open = [0xAA5C], d_close = [0xAA5C], d_mid = [0xAA5F]\<rparr>,
     \<lparr>d_open = [0xA4F8], d_close = [0xA4F8], d_mid = [0xA4F9]\<rparr>]"

definition SUFFIX_POOL :: "jsstring list" where
  "SUFFIX_POOL =
    [[0x9F98], [0x9750], [0x9F49], [0x9EA4], [0x7228], [0x9A6B], [0x9C7B], [0x7FB4], [0x7287], [0x9A89],
     [0x98DD], [0x53B5], [0x9747], [0x98CD], [0x99AB], [0x7065], [0x53BD], [0x53D2], [0x53D5], [0x8294]]"

record markers =
  TC_START :: jsstring
  TC_END :: jsstring
  NAME_START :: jsstring
  NAME_END :: jsstring
  ARGS_START :: jsstring
  ARGS_END :: jsstring
  RESULT_START :: jsstring
  RESULT_END :: jsstring

text \<open>
  \<open>generateMarkers\<close> draws three indices with \<open>Math.floor(Math.random() * pool.length)\<close>.
  The three draws are the parameters \<open>r0\<close>, \<open>r1\<close>, \<open>r2\<close>; each call of the source
  yields an index below the length of its pool, and the draws are independent.
\<close>

definition generateMarkers :: "nat \<Rightarrow> nat \<Rightarrow> nat \<Rightarrow> markers" where
  "generateMarkers r0 r1 r2 =
    (let set = DELIMITER_SETS ! r0;
         suffix1 = SUFFIX_POOL ! r1;
         suffix2 = SUFFIX_POOL ! r2;
         opn = d_open set; cls = d_close set; mid = d_mid set
     in \<lparr>TC_START = opn @ suffix1 @ [0x1405],
         TC_END = [0x140A] @ suffix1 @ cls,
         NAME_START = mid @ [0x25B8],
         NAME_END = [0x25C2] @ mid,
         ARGS_START = mid @ [0x25B9],
         ARGS_END = [0x25C3] @ mid,
         RESULT_START = opn @ suffix2 @ [0x27EB],
         RESULT_END = [0x27EA] @ suffix2 @ cls\<rparr>)"

definition tokens :: "markers \<Rightarrow> jsstring list" where
  "tokens m = [TC_START m, TC_END m, NAME_START m, NAME_END m,
               ARGS_START m, ARGS_END m, RESULT_START m, RESULT_END m]"

section \<open>JSON values and the platform\<close>

text \<open>
  A value as \<open>JSON.parse\<close> returns it.  A number is kept as the text
  \<open>JSON.stringify\<close> prints for it (both zeros print as \<open>0\<close>), an object as the
  list of its own properties in insertion order.
\<close>

datatype json =
    JNull
  | JBool bool
  | JNum jsstring
  | JStr jsstring
  | JArr "json list"
  | JObj "(jsstring \<times> json) list"

text \<open>
  The built-ins of the runtime that the program calls are parameters of the model:
  \<open>JSON.parse\<close> (\<open>None\<close> when it throws a SyntaxError), \<open>JSON.stringify\<close>, and
  \<open>Date.now\<close>, whose argument counts the readings of the clock.
\<close>

record platform =
  JSON_parse :: "jsstring \<Rightarrow> json option"
  JSON_stringify :: "json \<Rightarrow> jsstring"
  Date_now :: "nat \<Rightarrow> nat"

text \<open>\<open>String(n)\<close> for a non-negative integer: its decimal digits.\<close>

fun show_nat :: "nat \<Rightarrow> jsstring" where
  "show_nat n = (if n < 10 then [48 + n] else show_nat (n div 10) @ [48 + n mod 10])"

section \<open>Whitespace\<close>

text \<open>
  The code units that \<open>\s\<close> matches in a regular expression without the unicode
  flag; \<open>String.prototype.trim\<close> strips the same set (WhiteSpace and LineTerminator).
\<close>

definition is_ws :: "nat \<Rightarrow> bool" where
  "is_ws c \<longleftrightarrow>
     c \<in> {0x09, 0x0A, 0x0B, 0x0C, 0x0D, 0x20, 0xA0, 0x1680, 0x2028, 0x2029, 0x202F, 0x205F, 0x3000, 0xFEFF}
     \<or> (0x2000 \<le> c \<and> c \<le> 0x200A)"

definition trimStart :: "jsstring \<Rightarrow> jsstring" where
  "trimStart s = dropWhile is_ws s"

definition trim :: "jsstring \<Rightarrow> jsstring" where
  "trim s = rev (dropWhile is_ws (rev (dropWhile is_ws s)))"

section \<open>The tool-call pattern\<close>

text \<open>
  The regular expression of \<open>parse\<close> is a sequence of three kinds of items: an escaped
  marker (a literal), \<open>\s*\<close> (greedy) and the group \<open>([\s\S]*?)\<close> (lazy, any code
  unit).  \<open>rx_match\<close> is the backtracking matcher anchored at the head of the input: a
  greedy item first tries to take one more code unit, a lazy one first tries to take
  none.  It returns the captured groups and the input left after the match.
\<close>

datatype rx = Lit jsstring | WsStar | LazyAny

fun rx_match :: "rx list \<Rightarrow> jsstring \<Rightarrow> (jsstring list \<times> jsstring) option" where
  "rx_match [] s = Some ([], s)"
| "rx_match (Lit l # rs) s = (if prefix l s then rx_match rs (drop (length l) s) else None)"
| "rx_match (WsStar # rs) [] = rx_match rs []"
| "rx_match (WsStar # rs) (c # cs) =
     (if is_ws c
      then (case rx_match (WsStar # rs) cs of
              Some r \<Rightarrow> Some r
            | None \<Rightarrow> rx_match rs (c # cs))
      else rx_match rs (c # cs))"
| "rx_match (LazyAny # rs) [] =
     (case rx_match rs [] of
        Some (caps, rest) \<Rightarrow> Some ([] # caps, rest)
      | None \<Rightarrow> None)"
| "rx_match (LazyAny # rs) (c # cs) =
     (case rx_match rs (c # cs) of
        Some (caps, rest) \<Rightarrow> Some ([] # caps, rest)
      | None \<Rightarrow>
          (case rx_match (LazyAny # rs) cs of
             Some (cap # caps, rest) \<Rightarrow> Some ((c # cap) # caps, rest)
           | _ \<Rightarrow> None))"

text \<open>
  \<open>regex.exec\<close> with the global flag, seen from \<open>lastIndex\<close>: the first position at
  or after it where the pattern matches.  The result is the text skipped before the
  match, the groups, and the text after the match (where \<open>lastIndex\<close> then points).
\<close>

fun rx_search :: "rx list \<Rightarrow> jsstring \<Rightarrow> (jsstring \<times> jsstring list \<times> jsstring) option" where
  "rx_search p [] =
     (case rx_match p [] of
        Some (caps, rest) \<Rightarrow> Some ([], caps, rest)
      | None \<Rightarrow> None)"
| "rx_search p (c # cs) =
     (case rx_match p (c # cs) of
        Some (caps, rest) \<Rightarrow> Some ([], caps, rest)
      | None \<Rightarrow>
          (case rx_search p cs of
             Some (pre, caps, rest) \<Rightarrow> Some (c # pre, caps, rest)
           | None \<Rightarrow> None))"

definition pattern :: "markers \<Rightarrow> rx list" where
  "pattern m =
     [Lit (TC_START m), WsStar,
      Lit (NAME_START m), LazyAny, Lit (NAME_END m), WsStar,
      Lit (ARGS_START m), LazyAny, Lit (ARGS_END m), WsStar,
      Lit (TC_END m)]"

section \<open>The text protocol parser\<close>

record tool_call =
  tc_id :: jsstring
  tc_type :: jsstring
  tc_name :: jsstring
  tc_arguments :: jsstring

text \<open>
  The \<open>while\<close> loop of \<open>parse\<close> over \<open>regex.exec\<close>.  \<open>idx\<close> counts the accepted
  calls.  A match that consumes nothing leaves \<open>lastIndex\<close> where it was, and the loop
  of the source then never ends: that is the result \<open>None\<close>.
\<close>

function exec_loop :: "platform \<Rightarrow> markers \<Rightarrow> nat \<Rightarrow> jsstring \<Rightarrow> tool_call list option" where
  "exec_loop P m idx s =
     (case rx_search (pattern m) s of
        None \<Rightarrow> Some []
      | Some (pre, caps, rest) \<Rightarrow>
          if length rest < length s then
            (let name = trim (caps ! 0); argsStr = trim (caps ! 1) in
             case JSON_parse P argsStr of
               None \<Rightarrow> exec_loop P m idx rest
             | Some v \<Rightarrow>
                 map_option
                   (Cons \<lparr>tc_id = str ''call_'' @ show_nat (Date_now P idx) @ str ''_'' @ show_nat idx,
                          tc_type = str ''function'', tc_name = name, tc_arguments = argsStr\<rparr>)
                   (exec_loop P m (idx + 1) rest))
          else None)"
  by pat_completeness auto
termination
  by (relation "measure (\<lambda>(P, m, idx, s). length s)") auto

declare exec_loop.simps [simp del]

text \<open>
  \<open>content.replace(regex, '')\<close>: every match is deleted.  After an empty match
  \<open>replace\<close> moves on by one code unit.
\<close>

function replace_all :: "markers \<Rightarrow> jsstring \<Rightarrow> jsstring" where
  "replace_all m s =
     (case rx_search (pattern m) s of
        None \<Rightarrow> s
      | Some (pre, caps, rest) \<Rightarrow>
          if length rest < length s then pre @ replace_all m rest
          else (case s of [] \<Rightarrow> [] | c # cs \<Rightarrow> c # replace_all m cs))"
  by pat_completeness auto
termination
  by (relation "measure (\<lambda>(m, s). length s)") auto

declare replace_all.simps [simp del]

record parse_result =
  toolCalls :: "tool_call list"
  cleanContent :: jsstring

definition parse :: "platform \<Rightarrow> markers \<Rightarrow> jsstring \<Rightarrow> parse_result option" where
  "parse P m content =
     (case exec_loop P m 0 content of
        None \<Rightarrow> None
      | Some calls \<Rightarrow> Some \<lparr>toolCalls = calls, cleanContent = trim (replace_all m content)\<rparr>)"

section \<open>The regions a scan finds\<close>

text \<open>
  A reading of the text as the global pattern cuts it: the stretches that no match
  covers, and between them the matched regions, each with its two groups.  This is the
  decomposition that both passes of \<open>parse\<close> (the \<open>exec\<close> loop and \<open>replace\<close>) walk
  through; it is used to state what \<open>parse\<close> returns.
\<close>

datatype segment = Gap jsstring | Region jsstring jsstring jsstring

function scan_segments :: "markers \<Rightarrow> jsstring \<Rightarrow> segment list" where
  "scan_segments m s =
     (case rx_search (pattern m) s of
        None \<Rightarrow> [Gap s]
      | Some (pre, caps, rest) \<Rightarrow>
          if length rest < length s then
            Gap pre
            # Region (take (length s - length pre - length rest) (drop (length pre) s)) (caps ! 0) (caps ! 1)
            # scan_segments m rest
          else [Gap s])"
  by pat_completeness auto
termination
  by (relation "measure (\<lambda>(m, s). length s)") auto

declare scan_segments.simps [simp del]

declare show_nat.simps [simp del]


fun seg_gap :: "segment \<Rightarrow> jsstring" where
  "seg_gap (Gap t) = t"
| "seg_gap (Region t n a) = []"

text \<open>The name and arguments of the call a segment yields, if it yields one.\<close>

fun seg_call :: "platform \<Rightarrow> segment \<Rightarrow> (jsstring \<times> jsstring) list" where
  "seg_call P (Gap t) = []"
| "seg_call P (Region t n a) =
     (case JSON_parse P (trim a) of None \<Rightarrow> [] | Some v \<Rightarrow> [(trim n, trim a)])"

definition call_sig :: "tool_call \<Rightarrow> jsstring \<times> jsstring" where
  "call_sig c = (tc_name c, tc_arguments c)"


text \<open>
  The calls built from a list of accepted (name, arguments) pairs, numbered from
  \<open>idx\<close>: the identifier carries the clock reading and the ordinal of the call.
\<close>

fun number_calls :: "platform \<Rightarrow> nat \<Rightarrow> (jsstring \<times> jsstring) list \<Rightarrow> tool_call list" where
  "number_calls P idx [] = []"
| "number_calls P idx ((n, a) # xs) =
     \<lparr>tc_id = str ''call_'' @ show_nat (Date_now P idx) @ str ''_'' @ show_nat idx,
      tc_type = str ''function'', tc_name = n, tc_arguments = a\<rparr>
     # number_calls P (idx + 1) xs"

section \<open>Example inputs\<close>

text \<open>
  One outcome of the random draws, and a platform for the examples.  Its \<open>JSON.parse\<close>
  is the real one restricted to the texts the examples hand to it: \<open>{}\<close>, \<open>1\<close>, and
  an envelope with one choice whose delta has a content string written without escapes;
  the other texts of the examples are not JSON.  Its clock stands still.
\<close>

definition example_markers :: markers where
  "example_markers = generateMarkers 0 0 0"

definition envelope_open :: jsstring where
  "envelope_open = str ''{'' @ [34] @ str ''choices'' @ [34] @ str '':[{'' @ [34] @ str ''delta'' @ [34]
     @ str '':{'' @ [34] @ str ''content'' @ [34] @ str '':'' @ [34]"

definition envelope_close :: jsstring where
  "envelope_close = [34] @ str ''}}]}''"

definition envelope :: "jsstring \<Rightarrow> json" where
  "envelope content =
     JObj [(str ''choices'', JArr [JObj [(str ''delta'', JObj [(str ''content'', JStr content)])]])]"

definition example_JSON_parse :: "jsstring \<Rightarrow> json option" where
  "example_JSON_parse s =
     (if s = str ''{}'' then Some (JObj [])
      else if s = str ''1'' then Some (JNum (str ''1''))
      else if prefix envelope_open s \<and> suffix envelope_close (drop (length envelope_open) s)
              \<and> list_all (\<lambda>c. 32 \<le> c \<and> c \<noteq> 34 \<and> c \<noteq> 92)
                   (take (length s - length envelope_open - length envelope_close)
                      (drop (length envelope_open) s))
           then Some (envelope (take (length s - length envelope_open - length envelope_close)
                                 (drop (length envelope_open) s)))
      else None)"

definition example_platform :: platform where
  "example_platform =
     \<lparr>JSON_parse = example_JSON_parse,
      JSON_stringify = (\<lambda>j. []),
      Date_now = (\<lambda>k. 1700000000000)\<rparr>"

text \<open>A call block as the prompt shows it: the tokens on three lines.\<close>

definition block :: "markers \<Rightarrow> jsstring \<Rightarrow> jsstring \<Rightarrow> jsstring" where
  "block m name args =
     TC_START m @ [10] @ NAME_START m @ name @ NAME_END m @ [10]
       @ ARGS_START m @ args @ ARGS_END m @ [10] @ TC_END m"






text \<open>A chat completion body whose message carries some text and one call block.\<close>

definition example_reply :: jsstring where
  "example_reply = str ''ok '' @ block example_markers (str ''f'') (str ''{}'')"

definition example_body :: json where
  "example_body =
     JObj [(str ''id'', JStr (str ''c1'')),
           (str ''choices'',
              JArr [JObj [(str ''index'', JNum (str ''0'')),
                          (str ''message'',
                             JObj [(str ''role'', JStr (str ''assistant'')),
                                   (str ''content'', JStr example_reply)]),
                          (str ''finish_reason'', JStr (str ''stop''))]])]"


section \<open>JavaScript operations on JSON values\<close>

text \<open>
  \<open>undefined\<close> is \<open>None\<close> in a \<open>json option\<close>.  The program reads the properties
  \<open>choices\<close>, \<open>delta\<close>, \<open>content\<close>, \<open>message\<close>, \<open>__raw\<close> and the index \<open>0\<close>;
  none of the names is a built-in property of a string, an array, a number or a
  boolean, so reading one from anything but an object yields \<open>undefined\<close>.
\<close>

datatype failure = TypeError | NoReturn

fun truthy :: "json \<Rightarrow> bool" where
  "truthy JNull = False"
| "truthy (JBool b) = b"
| "truthy (JNum n) = (n \<noteq> str ''0'')"
| "truthy (JStr s) = (s \<noteq> [])"
| "truthy (JArr xs) = True"
| "truthy (JObj kvs) = True"

fun truthy_opt :: "json option \<Rightarrow> bool" where
  "truthy_opt None = False"
| "truthy_opt (Some v) = truthy v"

text \<open>\<open>v.k\<close> for a value that is neither \<open>null\<close> nor \<open>undefined\<close>.\<close>

fun get_prop :: "json \<Rightarrow> jsstring \<Rightarrow> json option" where
  "get_prop (JObj kvs) k = map_of kvs k"
| "get_prop v k = None"

text \<open>\<open>v[0]\<close> for a value that is neither \<open>null\<close> nor \<open>undefined\<close>.\<close>

fun get_idx0 :: "json \<Rightarrow> json option" where
  "get_idx0 (JArr []) = None"
| "get_idx0 (JArr (x # xs)) = Some x"
| "get_idx0 (JStr []) = None"
| "get_idx0 (JStr (c # cs)) = Some (JStr [c])"
| "get_idx0 (JObj kvs) = map_of kvs (str ''0'')"
| "get_idx0 v = None"

text \<open>The optional chain: \<open>v?.k\<close> and \<open>v?.[0]\<close>.\<close>

fun opt_prop :: "json option \<Rightarrow> jsstring \<Rightarrow> json option" where
  "opt_prop None k = None"
| "opt_prop (Some JNull) k = None"
| "opt_prop (Some v) k = get_prop v k"

fun opt_idx0 :: "json option \<Rightarrow> json option" where
  "opt_idx0 None = None"
| "opt_idx0 (Some JNull) = None"
| "opt_idx0 (Some v) = get_idx0 v"

text \<open>
  The value after \<open>v.k = x\<close> and after \<open>v[0] = x\<close>, for an object (and for an array
  that has an element \<open>0\<close>): an existing property keeps its place, a new one goes last.
\<close>

fun set_prop :: "json \<Rightarrow> jsstring \<Rightarrow> json \<Rightarrow> json" where
  "set_prop (JObj kvs) k x = JObj (AList.update k x kvs)"
| "set_prop v k x = v"

fun set_idx0 :: "json \<Rightarrow> json \<Rightarrow> json" where
  "set_idx0 (JArr (y # ys)) x = JArr (x # ys)"
| "set_idx0 (JObj kvs) x = JObj (AList.update (str ''0'') x kvs)"
| "set_idx0 v x = v"

text \<open>\<open>String(v)\<close>, as a template literal or \<open>regex.exec\<close> converts a value.\<close>

fun to_string :: "json \<Rightarrow> jsstring" and to_string_elems :: "json list \<Rightarrow> jsstring" where
  "to_string JNull = str ''null''"
| "to_string (JBool b) = (if b then str ''true'' else str ''false'')"
| "to_string (JNum n) = n"
| "to_string (JStr s) = s"
| "to_string (JArr xs) = to_string_elems xs"
| "to_string (JObj kvs) = str ''[object Object]''"
| "to_string_elems [] = []"
| "to_string_elems [x] = (if x = JNull then [] else to_string x)"
| "to_string_elems (x # y # ys) =
     (if x = JNull then [] else to_string x) @ str '','' @ to_string_elems (y # ys)"

section \<open>The non-stream response finisher\<close>

text \<open>A tool call as the property list of its object.\<close>

definition call_json :: "tool_call \<Rightarrow> json" where
  "call_json c =
     JObj [(str ''id'', JStr (tc_id c)),
           (str ''type'', JStr (tc_type c)),
           (str ''function'',
              JObj [(str ''name'', JStr (tc_name c)), (str ''arguments'', JStr (tc_arguments c))])]"

text \<open>
  \<open>delimiter.parse(v)\<close> for the value of a \<open>content\<close> property.  For a value that is
  not a string the \<open>exec\<close> loop runs on its conversion to a string, and
  \<open>content.replace\<close> then throws: the value has no such method.
\<close>

definition parse_value :: "platform \<Rightarrow> markers \<Rightarrow> json \<Rightarrow> failure + parse_result" where
  "parse_value P m v =
     (case v of
        JStr s \<Rightarrow> (case parse P m s of None \<Rightarrow> Inl NoReturn | Some r \<Rightarrow> Inr r)
      | _ \<Rightarrow> (case exec_loop P m 0 (to_string v) of None \<Rightarrow> Inl NoReturn | Some calls \<Rightarrow> Inl TypeError))"

text \<open>\<open>data?.choices?.[0]?.message?.content\<close>.\<close>

definition primary_message :: "json \<Rightarrow> json option" where
  "primary_message data = opt_prop (opt_idx0 (opt_prop (Some data) (str ''choices''))) (str ''message'')"

definition primary_content :: "json \<Rightarrow> json option" where
  "primary_content data = opt_prop (primary_message data) (str ''content'')"

text \<open>
  The non-stream branch of \<open>handleRequest\<close> from the decoded body \<open>data\<close> to the body
  it answers with.  The three assignments go through \<open>data.choices[0]\<close>; where the
  guard holds, \<open>data\<close>, its first choice and the message are objects.
\<close>

definition finish_response :: "platform \<Rightarrow> markers \<Rightarrow> bool \<Rightarrow> json \<Rightarrow> failure + json" where
  "finish_response P m requestHasTools data =
     (if requestHasTools \<and> truthy_opt (primary_content data) then
        (case parse_value P m (the (primary_content data)) of
           Inl e \<Rightarrow> Inl e
         | Inr r \<Rightarrow>
             if length (toolCalls r) > 0 then
               (let choices = the (get_prop data (str ''choices''));
                    choice0 = the (get_idx0 choices);
                    message = the (get_prop choice0 (str ''message''));
                    message1 = set_prop message (str ''tool_calls'') (JArr (map call_json (toolCalls r)));
                    message2 = set_prop message1 (str ''content'')
                                 (if cleanContent r \<noteq> [] then JStr (cleanContent r) else JNull);
                    choice1 = set_prop choice0 (str ''message'') message2;
                    choice2 = set_prop choice1 (str ''finish_reason'') (JStr (str ''tool_calls''))
                in Inr (set_prop data (str ''choices'') (set_idx0 choices choice2)))
             else Inr data)
      else Inr data)"

section \<open>Server-sent event framing\<close>

text \<open>\<open>s.indexOf(p)\<close>, with \<open>None\<close> for \<open>-1\<close>.\<close>

fun indexOf :: "jsstring \<Rightarrow> jsstring \<Rightarrow> nat option" where
  "indexOf [] p = (if p = [] then Some 0 else None)"
| "indexOf (c # cs) p = (if prefix p (c # cs) then Some 0 else map_option Suc (indexOf cs p))"

lemma indexOf_bound: "indexOf s p = Some i \<Longrightarrow> i + length p \<le> length s"
proof (induction s arbitrary: i)
  case Nil
  then show ?case by (simp split: if_splits)
next
  case (Cons c cs)
  show ?case
  proof (cases "prefix p (c # cs)")
    case True
    with Cons.prems have "i = 0" by simp
    with prefix_length_le[OF True] show ?thesis by simp
  next
    case False
    with Cons.prems obtain j where "indexOf cs p = Some j" "i = Suc j" by auto
    with Cons.IH show ?thesis by fastforce
  qed
qed

text \<open>
  The loop of \<open>SseEventParser.pushText\<close> on the buffer that already holds the new
  text: the events cut off at each blank line, and the buffer that is left.
\<close>

function pushText_loop :: "jsstring \<Rightarrow> jsstring list \<times> jsstring" where
  "pushText_loop buf =
     (case indexOf buf [10, 10] of
        None \<Rightarrow> ([], buf)
      | Some idx \<Rightarrow>
          (case pushText_loop (drop (idx + 2) buf) of
             (events, rest) \<Rightarrow> (take idx buf # events, rest)))"
  by pat_completeness auto
termination
  by (relation "measure length") (auto dest: indexOf_bound)

declare pushText_loop.simps [simp del]

definition pushText :: "jsstring \<Rightarrow> jsstring \<Rightarrow> jsstring list \<times> jsstring" where
  "pushText buf text = pushText_loop (buf @ text)"

text \<open>\<open>s.split('\n')\<close> and \<open>xs.join('\n')\<close>.\<close>

fun split_nl :: "jsstring \<Rightarrow> jsstring list" where
  "split_nl [] = [[]]"
| "split_nl (c # cs) =
     (if c = 10 then [] # split_nl cs
      else (case split_nl cs of l # ls \<Rightarrow> (c # l) # ls | [] \<Rightarrow> [[c]]))"

fun join_nl :: "jsstring list \<Rightarrow> jsstring" where
  "join_nl [] = []"
| "join_nl [x] = x"
| "join_nl (x # y # ys) = x @ [10] @ join_nl (y # ys)"

definition extractDataLines :: "jsstring \<Rightarrow> jsstring list" where
  "extractDataLines rawEvent =
     map (\<lambda>line. trimStart (drop 5 line)) (filter (prefix (str ''data:'')) (split_nl rawEvent))"

definition isDoneEvent :: "jsstring \<Rightarrow> bool" where
  "isDoneEvent rawEvent \<longleftrightarrow>
     (let datas = extractDataLines rawEvent in length datas = 1 \<and> datas ! 0 = str ''[DONE]'')"

text \<open>\<open>null\<close> is \<open>JNull\<close>; the two marker objects are objects with one property.\<close>

definition parseJsonFromEvent :: "platform \<Rightarrow> jsstring \<Rightarrow> json" where
  "parseJsonFromEvent P rawEvent =
     (let datas = extractDataLines rawEvent in
      if length datas = 0 then JNull
      else if length datas = 1 \<and> datas ! 0 = str ''[DONE]'' then JObj [(str ''__done'', JBool True)]
      else (case JSON_parse P (join_nl datas) of
              Some v \<Rightarrow> v
            | None \<Rightarrow> JObj [(str ''__raw'', JStr rawEvent)]))"

definition sseEncodeData :: "jsstring \<Rightarrow> jsstring" where
  "sseEncodeData d = str ''data: '' @ d @ [10, 10]"

definition sseEncodeJson :: "platform \<Rightarrow> json \<Rightarrow> jsstring" where
  "sseEncodeJson P obj = sseEncodeData (JSON_stringify P obj)"

section \<open>The streaming transcoder\<close>

text \<open>
  What the transformer pushes downstream: an event encoded from a JSON value, a raw
  event handed on with its blank line, or the sentinel.  \<open>wire\<close> gives the text pushed.
\<close>

datatype push = PushJson json | PushRaw jsstring | PushDone

fun wire :: "platform \<Rightarrow> push \<Rightarrow> jsstring" where
  "wire P (PushJson evt) = sseEncodeJson P evt"
| "wire P (PushRaw rawEvent) = rawEvent @ [10, 10]"
| "wire P PushDone = sseEncodeData (str ''[DONE]'')"

text \<open>The variables of the closure; \<open>lastEnvelope\<close> is \<open>None\<close> while it is \<open>null\<close>.\<close>

record scan_state =
  pendingText :: jsstring
  bufferingTool :: bool
  toolBuffer :: jsstring
  lastEnvelope :: "json option"

record transformer_state =
  buffer :: jsstring
  vars :: scan_state

definition initial_state :: transformer_state where
  "initial_state =
     \<lparr>buffer = [],
      vars = \<lparr>pendingText = [], bufferingTool = False, toolBuffer = [], lastEnvelope = None\<rparr>\<rparr>"

text \<open>
  A run pushes events and then either has thrown (or never returns) or is in a state.
  Once a handler has thrown inside \<open>transform\<close>, the stream takes no further write and
  never flushes: nothing is pushed after it.
\<close>

type_synonym 's outcome = "push list \<times> (failure + 's)"

definition and_then :: "'a outcome \<Rightarrow> ('a \<Rightarrow> 'b outcome) \<Rightarrow> 'b outcome" where
  "and_then r k =
     (case r of
        (outs, Inl f) \<Rightarrow> (outs, Inl f)
      | (outs, Inr st) \<Rightarrow> (case k st of (outs', r') \<Rightarrow> (outs @ outs', r')))"

fun partial_loop :: "jsstring \<Rightarrow> jsstring \<Rightarrow> nat \<Rightarrow> nat" where
  "partial_loop text marker 0 = length text"
| "partial_loop text marker (Suc i) =
     (if suffix (take (Suc i) marker) text then length text - Suc i
      else partial_loop text marker i)"

definition findPartialMatchEndIndex :: "jsstring \<Rightarrow> jsstring \<Rightarrow> nat" where
  "findPartialMatchEndIndex text marker = partial_loop text marker (length marker - 1)"

definition splitByMarker :: "jsstring \<Rightarrow> jsstring \<Rightarrow> (jsstring \<times> jsstring) option" where
  "splitByMarker text marker =
     (case indexOf text marker of
        None \<Rightarrow> None
      | Some idx \<Rightarrow> Some (take idx text, drop idx text))"

text \<open>
  \<open>d.content = c\<close> in strict mode for a truthy \<open>d\<close>: an object takes the property, an
  array takes it as a property that is not serialised, a primitive value throws.
\<close>

fun assign_content :: "json \<Rightarrow> jsstring \<Rightarrow> failure + json" where
  "assign_content (JObj dk) c = Inr (JObj (AList.update (str ''content'') (JStr c) dk))"
| "assign_content (JArr xs) c = Inr (JArr xs)"
| "assign_content d c = Inl TypeError"

text \<open>\<open>x || {}\<close>.\<close>

definition or_empty_object :: "json option \<Rightarrow> json" where
  "or_empty_object x = (if truthy_opt x then the x else JObj [])"

text \<open>
  \<open>c0.delta = c0.delta || {}; c0.delta.content = c\<close> on the first choice \<open>c0\<close>.
\<close>

fun patch_choice :: "json \<Rightarrow> jsstring \<Rightarrow> failure + json" where
  "patch_choice (JObj ck) c =
     (case assign_content (or_empty_object (map_of ck (str ''delta''))) c of
        Inl e \<Rightarrow> Inl e
      | Inr d \<Rightarrow> Inr (JObj (AList.update (str ''delta'') d ck)))"
| "patch_choice (JArr xs) c = Inr (JArr xs)"
| "patch_choice c0 c = Inl TypeError"

text \<open>
  The two statements on \<open>evt.choices[0]\<close> without a guard: reading \<open>[0]\<close> of an absent
  \<open>choices\<close>, or \<open>delta\<close> of an absent first choice, throws.
\<close>

definition patch_content :: "json \<Rightarrow> jsstring \<Rightarrow> failure + json" where
  "patch_content evt c =
     (case get_prop evt (str ''choices'') of
        None \<Rightarrow> Inl TypeError
      | Some ch \<Rightarrow>
          (case get_idx0 ch of
             None \<Rightarrow> Inl TypeError
           | Some c0 \<Rightarrow>
               (case patch_choice c0 c of
                  Inl e \<Rightarrow> Inl e
                | Inr c1 \<Rightarrow> Inr (set_prop evt (str ''choices'') (set_idx0 ch c1)))))"

text \<open>The same under \<open>if (evt.choices && evt.choices[0])\<close>.\<close>

definition patch_content_guarded :: "json \<Rightarrow> jsstring \<Rightarrow> failure + json" where
  "patch_content_guarded evt c =
     (if truthy_opt (get_prop evt (str ''choices''))
         \<and> truthy_opt (opt_idx0 (get_prop evt (str ''choices'')))
      then patch_content evt c
      else Inr evt)"

text \<open>
  \<open>if (outEvt.choices?.[0]?.delta && typeof outEvt.choices[0].delta === 'object')
  delete outEvt.choices[0].delta.content\<close>.
\<close>

definition delete_content :: "json \<Rightarrow> json" where
  "delete_content evt =
     (case opt_prop (opt_idx0 (get_prop evt (str ''choices''))) (str ''delta'') of
        Some (JObj dk) \<Rightarrow>
          (let ch = the (get_prop evt (str ''choices''));
               c0 = the (get_idx0 ch)
           in set_prop evt (str ''choices'')
                (set_idx0 ch (set_prop c0 (str ''delta'') (JObj (AList.delete (str ''content'') dk)))))
      | _ \<Rightarrow> evt)"

definition fresh_choice :: json where
  "fresh_choice =
     JObj [(str ''index'', JNum (str ''0'')), (str ''delta'', JObj []), (str ''finish_reason'', JNull)]"

text \<open>\<open>toolCalls.map((tc, i) => ({ index: i, ...tc }))\<close>.\<close>

fun indexed_calls :: "nat \<Rightarrow> tool_call list \<Rightarrow> json list" where
  "indexed_calls i [] = []"
| "indexed_calls i (c # cs) =
     JObj [(str ''index'', JNum (show_nat i)),
           (str ''id'', JStr (tc_id c)),
           (str ''type'', JStr (tc_type c)),
           (str ''function'',
              JObj [(str ''name'', JStr (tc_name c)), (str ''arguments'', JStr (tc_arguments c))])]
     # indexed_calls (i + 1) cs"

text \<open>
  The statements of \<open>injectToolCallsEvent\<close> on the first choice: \<open>delta\<close> is kept when
  it is an object or an array, the calls go into it, the finish reason becomes \<open>null\<close>.
\<close>

fun inject_choice :: "json \<Rightarrow> json list \<Rightarrow> failure + json" where
  "inject_choice (JObj ck) calls =
     (let d = (case map_of ck (str ''delta'') of
                 Some (JObj dk) \<Rightarrow> JObj (AList.update (str ''tool_calls'') (JArr calls) dk)
               | Some (JArr ys) \<Rightarrow> JArr ys
               | _ \<Rightarrow> JObj [(str ''tool_calls'', JArr calls)])
      in Inr (JObj (AList.update (str ''finish_reason'') JNull (AList.update (str ''delta'') d ck))))"
| "inject_choice (JArr ys) calls = Inr (JArr ys)"
| "inject_choice c0 calls = Inl TypeError"

text \<open>
  \<open>injectToolCallsEvent\<close> on a truthy base event.  A base that is an array takes
  \<open>choices\<close> as a property that is not serialised; a primitive base throws at the
  assignment of \<open>choices\<close>.
\<close>

fun injectToolCallsEvent :: "json \<Rightarrow> tool_call list \<Rightarrow> failure + json" where
  "injectToolCallsEvent (JObj kvs) calls =
     (let chs = (case map_of kvs (str ''choices'') of
                   Some (JArr (x # xs)) \<Rightarrow> x # xs
                 | _ \<Rightarrow> [fresh_choice]);
          choice0 = (if truthy (hd chs) then hd chs else fresh_choice)
      in case inject_choice choice0 (indexed_calls 0 calls) of
           Inl e \<Rightarrow> Inl e
         | Inr c1 \<Rightarrow> Inr (JObj (AList.update (str ''choices'') (JArr (c1 # tl chs)) kvs)))"
| "injectToolCallsEvent (JArr xs) calls = Inr (JArr xs)"
| "injectToolCallsEvent base calls = Inl TypeError"

text \<open>
  \<open>this.push(sseEncodeJson(evt))\<close> after the statements that build \<open>evt\<close>: nothing
  is pushed when they throw.
\<close>

definition push_or_throw :: "'s \<Rightarrow> failure + json \<Rightarrow> 's outcome" where
  "push_or_throw st r = (case r of Inl e \<Rightarrow> ([], Inl e) | Inr evt \<Rightarrow> ([PushJson evt], Inr st))"

text \<open>
  The event for a stretch of content: the envelope with the stretch as its content,
  or with the content removed when the stretch is empty.
\<close>

definition emit_text :: "json \<Rightarrow> jsstring \<Rightarrow> failure + json" where
  "emit_text parsed text =
     (if length text > 0 then patch_content parsed text else Inr (delete_content parsed))"

text \<open>The branch of \<open>transform\<close> for the sentinel.  It leaves the variables as they are.\<close>

definition handle_done :: "platform \<Rightarrow> markers \<Rightarrow> scan_state \<Rightarrow> scan_state outcome" where
  "handle_done P m st =
     (if toolBuffer st \<noteq> [] then
        (case parse P m (toolBuffer st) of
           None \<Rightarrow> ([], Inl NoReturn)
         | Some r \<Rightarrow>
             and_then
               (if cleanContent r \<noteq> [] \<and> lastEnvelope st \<noteq> None
                then push_or_throw st (patch_content_guarded (the (lastEnvelope st)) (cleanContent r))
                else ([], Inr st))
               (\<lambda>st. and_then
                  (if length (toolCalls r) > 0 \<and> lastEnvelope st \<noteq> None
                   then push_or_throw st (injectToolCallsEvent (the (lastEnvelope st)) (toolCalls r))
                   else ([], Inr st))
                  (\<lambda>st. ([PushDone], Inr st))))
      else if pendingText st \<noteq> [] \<and> lastEnvelope st \<noteq> None then
        and_then
          (push_or_throw st (patch_content (the (lastEnvelope st)) (pendingText st)))
          (\<lambda>st. ([PushDone], Inr st))
      else ([PushDone], Inr st))"

text \<open>
  The content that \<open>transform\<close> rewrites: \<open>choices\<close> is a non-empty array and
  \<open>choices[0]?.delta?.content\<close> is a non-empty string.  In every other case the
  envelope is pushed as it came.
\<close>

definition envelope_content :: "json \<Rightarrow> jsstring option" where
  "envelope_content parsed =
     (case get_prop parsed (str ''choices'') of
        Some (JArr (c0 # others)) \<Rightarrow>
          (case opt_prop (opt_prop (Some c0) (str ''delta'')) (str ''content'') of
             Some (JStr content) \<Rightarrow> if length content = 0 then None else Some content
           | _ \<Rightarrow> None)
       | _ \<Rightarrow> None)"

text \<open>
  The rest of the loop body for an envelope with such a content: swallow it while
  buffering, otherwise scan the pending tail and the content for the call-start token.
\<close>

definition handle_content :: "markers \<Rightarrow> scan_state \<Rightarrow> json \<Rightarrow> jsstring \<Rightarrow> scan_state outcome" where
  "handle_content m st parsed content =
     (if bufferingTool st then
        ([PushJson (delete_content parsed)], Inr (st\<lparr>toolBuffer := toolBuffer st @ content\<rparr>))
      else
        (let combined = pendingText st @ content in
         case splitByMarker combined (TC_START m) of
           Some (before, after) \<Rightarrow>
             and_then (push_or_throw st (emit_text parsed before))
               (\<lambda>s. ([], Inr (s\<lparr>toolBuffer := after, pendingText := [], bufferingTool := True\<rparr>)))
         | None \<Rightarrow>
             (let safeEnd = findPartialMatchEndIndex combined (TC_START m);
                  safeText = take safeEnd combined;
                  tail = drop safeEnd combined
              in and_then (push_or_throw st (emit_text parsed safeText))
                   (\<lambda>s. ([], Inr (s\<lparr>pendingText := tail\<rparr>))))))"

text \<open>The body of the loop of \<open>transform\<close> for one raw event.\<close>

definition handle_event :: "platform \<Rightarrow> markers \<Rightarrow> scan_state \<Rightarrow> jsstring \<Rightarrow> scan_state outcome" where
  "handle_event P m st rawEvent =
     (if isDoneEvent rawEvent then handle_done P m st
      else
        (let parsed = parseJsonFromEvent P rawEvent in
         if \<not> truthy parsed \<or> truthy_opt (get_prop parsed (str ''__raw''))
         then ([PushRaw rawEvent], Inr st)
         else
           (let st1 = st\<lparr>lastEnvelope := Some parsed\<rparr> in
            case envelope_content parsed of
              None \<Rightarrow> ([PushJson parsed], Inr st1)
            | Some content \<Rightarrow> handle_content m st1 parsed content)))"

fun process_events :: "platform \<Rightarrow> markers \<Rightarrow> scan_state \<Rightarrow> jsstring list \<Rightarrow> scan_state outcome" where
  "process_events P m st [] = ([], Inr st)"
| "process_events P m st (rawEvent # rawEvents) =
     and_then (handle_event P m st rawEvent) (\<lambda>st'. process_events P m st' rawEvents)"

text \<open>\<open>transform(chunk)\<close>: the parser takes the text, the loop handles the events.\<close>

definition transform :: "platform \<Rightarrow> markers \<Rightarrow> transformer_state \<Rightarrow> jsstring \<Rightarrow> transformer_state outcome" where
  "transform P m ts chunk =
     (case pushText (buffer ts) chunk of
        (rawEvents, rest) \<Rightarrow>
          and_then (process_events P m (vars ts) rawEvents)
            (\<lambda>v. ([], Inr \<lparr>buffer = rest, vars = v\<rparr>)))"

text \<open>\<open>flush\<close>, run when the upstream has ended.\<close>

definition flush :: "platform \<Rightarrow> markers \<Rightarrow> scan_state \<Rightarrow> scan_state outcome" where
  "flush P m st =
     and_then
       (if pendingText st \<noteq> [] \<and> lastEnvelope st \<noteq> None \<and> \<not> bufferingTool st
        then push_or_throw st (patch_content (the (lastEnvelope st)) (pendingText st))
        else ([], Inr st))
       (\<lambda>st.
          if toolBuffer st \<noteq> [] \<and> lastEnvelope st \<noteq> None then
            (case parse P m (toolBuffer st) of
               None \<Rightarrow> ([], Inl NoReturn)
             | Some r \<Rightarrow>
                 and_then
                   (if cleanContent r \<noteq> []
                    then push_or_throw st (patch_content (the (lastEnvelope st)) (cleanContent r))
                    else ([], Inr st))
                   (\<lambda>st. if length (toolCalls r) > 0
                         then push_or_throw st (injectToolCallsEvent (the (lastEnvelope st)) (toolCalls r))
                         else ([], Inr st)))
          else ([], Inr st))"

text \<open>
  A whole response: the chunks are written in order, then the stream is ended.
\<close>

fun run_chunks :: "platform \<Rightarrow> markers \<Rightarrow> transformer_state \<Rightarrow> jsstring list \<Rightarrow> transformer_state outcome" where
  "run_chunks P m ts [] = ([], Inr ts)"
| "run_chunks P m ts (chunk # chunks) =
     and_then (transform P m ts chunk) (\<lambda>ts'. run_chunks P m ts' chunks)"

definition run_stream :: "platform \<Rightarrow> markers \<Rightarrow> jsstring list \<Rightarrow> transformer_state outcome" where
  "run_stream P m chunks =
     and_then (run_chunks P m initial_state chunks)
       (\<lambda>ts. and_then (flush P m (vars ts)) (\<lambda>v. ([], Inr (ts\<lparr>vars := v\<rparr>))))"

text \<open>
  What a client reads from a pushed JSON event: the content and the tool calls in the
  delta of the first element of \<open>choices\<close>.  A raw event is handed on undecoded and
  counts as carrying neither.
\<close>

definition first_delta :: "json \<Rightarrow> json option" where
  "first_delta evt =
     (case get_prop evt (str ''choices'') of
        Some (JArr (c0 # others)) \<Rightarrow> opt_prop (Some c0) (str ''delta'')
      | _ \<Rightarrow> None)"

definition push_content :: "push \<Rightarrow> jsstring" where
  "push_content p =
     (case p of
        PushJson evt \<Rightarrow>
          (case opt_prop (first_delta evt) (str ''content'') of
             Some (JStr s) \<Rightarrow> s
           | _ \<Rightarrow> [])
      | _ \<Rightarrow> [])"

definition push_tool_calls :: "push \<Rightarrow> json option" where
  "push_tool_calls p =
     (case p of
        PushJson evt \<Rightarrow> opt_prop (first_delta evt) (str ''tool_calls'')
      | _ \<Rightarrow> None)"

text \<open>An event that \<open>transform\<close> hands on as raw text.\<close>

definition is_raw :: "platform \<Rightarrow> jsstring \<Rightarrow> bool" where
  "is_raw P rawEvent \<longleftrightarrow>
     \<not> truthy (parseJsonFromEvent P rawEvent)
     \<or> truthy_opt (get_prop (parseJsonFromEvent P rawEvent) (str ''__raw''))"

section \<open>Example streams\<close>

text \<open>
  An event stream: a frame with the content \<open>Hi\<close> and a space, a frame with a whole
  call block, the sentinel.  \<open>split_stream\<close> is the same text cut inside the
  call-start token.
\<close>

definition content_frame :: "jsstring \<Rightarrow> jsstring" where
  "content_frame content = str ''data: '' @ envelope_open @ content @ envelope_close @ [10, 10]"

definition inline_block :: jsstring where
  "inline_block =
     TC_START example_markers
       @ NAME_START example_markers @ str ''f'' @ NAME_END example_markers
       @ ARGS_START example_markers @ str ''{}'' @ ARGS_END example_markers
       @ TC_END example_markers"

definition whole_stream :: "jsstring list" where
  "whole_stream =
     [content_frame (str ''Hi '') @ content_frame inline_block @ str ''data: [DONE]'' @ [10, 10]]"

definition split_stream :: "jsstring list" where
  "split_stream =
     [content_frame (str ''Hi '') @ str ''data: '' @ envelope_open @ take 2 inline_block,
      drop 2 inline_block @ envelope_close @ [10],
      [10] @ str ''data: [DONE]'' @ [10, 10]]"

text \<open>The event synthesised from the envelope of the block's frame.\<close>

definition example_tool_event :: json where
  "example_tool_event =
     JObj [(str ''choices'',
            JArr [JObj [(str ''delta'',
                         JObj [(str ''content'', JStr inline_block),
                               (str ''tool_calls'',
                                  JArr (indexed_calls 0
                                    (number_calls example_platform 0 [(str ''f'', str ''{}'')])))]),
                        (str ''finish_reason'', JNull)]])]"

text \<open>Frames that are no JSON, and the sentinel.\<close>

definition undecoded_events :: "jsstring list" where
  "undecoded_events = [str ''data: oops'', str '': keep-alive'', str ''data: [DONE]'']"

text \<open>
  A stream that ends, without the sentinel, inside a block: the call-start token and
  the name have arrived, the rest never does.
\<close>

definition incomplete_block :: jsstring where
  "incomplete_block = TC_START example_markers @ NAME_START example_markers @ str ''f''"

definition incomplete_stream :: "jsstring list" where
  "incomplete_stream = [content_frame incomplete_block]"

text \<open>One raw event whose content is some text followed by a whole block.\<close>

definition mixed_event :: jsstring where
  "mixed_event = str ''data: '' @ envelope_open @ str ''Hi '' @ inline_block @ envelope_close"

text \<open>
  A text fed one code unit per frame, and the sentinel frame.  \<open>malformed_block\<close> is a
  block whose arguments are not JSON.
\<close>

definition unit_events :: "jsstring \<Rightarrow> jsstring list" where
  "unit_events text = map (\<lambda>u. str ''data: '' @ envelope_open @ [u] @ envelope_close) text"

definition done_event :: jsstring where
  "done_event = str ''data: [DONE]''"

definition malformed_block :: jsstring where
  "malformed_block =
     TC_START example_markers
       @ NAME_START example_markers @ str ''f'' @ NAME_END example_markers
       @ ARGS_START example_markers @ str ''x'' @ ARGS_END example_markers
       @ TC_END example_markers"

definition body_with :: "jsstring \<Rightarrow> json" where
  "body_with content =
     JObj [(str ''choices'',
            JArr [JObj [(str ''message'',
                         JObj [(str ''role'', JStr (str ''assistant'')),
                               (str ''content'', JStr content)])]])]"

definition spaced_reply :: jsstring where
  "spaced_reply = str ''a '' @ inline_block"

text \<open>The envelope of the example frames once its content has been removed.\<close>

definition contentless :: push where
  "contentless = PushJson (JObj [(str ''choices'', JArr [JObj [(str ''delta'', JObj [])]])])"

text \<open>
  Two frames that cut the call-start token of a block after its second code unit, in
  two chunks that cut the second frame.
\<close>

definition cut_frame1 :: jsstring where
  "cut_frame1 = str ''data: '' @ envelope_open @ str ''Hi '' @ take 2 inline_block @ envelope_close"

definition cut_frame2 :: jsstring where
  "cut_frame2 = str ''data: '' @ envelope_open @ drop 2 inline_block @ envelope_close"

definition cut_stream :: "jsstring list" where
  "cut_stream = [cut_frame1 @ [10, 10] @ take 9 cut_frame2, drop 9 cut_frame2 @ [10, 10]]"

section \<open>The held-back tail\<close>

text \<open>
  What the scan keeps in \<open>pendingText\<close> after a text in which the marker does not
  occur: the text from the safe cut index on.
\<close>

definition held :: "jsstring \<Rightarrow> jsstring \<Rightarrow> jsstring" where
  "held text marker = drop (findPartialMatchEndIndex text marker) text"

text \<open>
  A raw event that carries the content \<open>c\<close>: it is not the sentinel, it decodes as
  an envelope, and the content that \<open>transform\<close> rewrites in it is \<open>c\<close>.
\<close>

definition carries :: "platform \<Rightarrow> jsstring \<Rightarrow> jsstring \<Rightarrow> bool" where
  "carries P rawEvent c \<longleftrightarrow>
     \<not> isDoneEvent rawEvent \<and> \<not> is_raw P rawEvent
     \<and> envelope_content (parseJsonFromEvent P rawEvent) = Some c"

definition good_env :: "scan_state \<Rightarrow> bool" where
  "good_env st \<longleftrightarrow> (\<exists>env c. lastEnvelope st = Some env \<and> envelope_content env = Some c)"

text \<open>
  The variables after the contents \<open>T\<close> have been scanned from the start, and the
  content that has been delivered for them: up to the first call-start token if there
  is one, up to the held-back tail otherwise.
\<close>

definition scanned :: "markers \<Rightarrow> jsstring \<Rightarrow> scan_state \<Rightarrow> bool" where
  "scanned m T st \<longleftrightarrow>
     (case indexOf T (TC_START m) of
        None \<Rightarrow> \<not> bufferingTool st \<and> toolBuffer st = [] \<and> pendingText st = held T (TC_START m)
      | Some i \<Rightarrow> bufferingTool st \<and> toolBuffer st = drop i T \<and> pendingText st = [])"

definition emitted :: "markers \<Rightarrow> jsstring \<Rightarrow> jsstring" where
  "emitted m T =
     (case indexOf T (TC_START m) of
        None \<Rightarrow> take (findPartialMatchEndIndex T (TC_START m)) T
      | Some i \<Rightarrow> take i T)"

text \<open>The text before the first call-start token, and the text from that token on.\<close>

definition before_marker :: "markers \<Rightarrow> jsstring \<Rightarrow> jsstring" where
  "before_marker m text =
     (case indexOf text (TC_START m) of None \<Rightarrow> text | Some i \<Rightarrow> take i text)"

definition after_marker :: "markers \<Rightarrow> jsstring \<Rightarrow> jsstring" where
  "after_marker m text =
     (case indexOf text (TC_START m) of None \<Rightarrow> [] | Some i \<Rightarrow> drop i text)"

text \<open>
  The content that \<open>transform\<close> reads from a raw event: the non-empty string at
  \<open>choices[0]?.delta?.content\<close> of an event that decodes, nothing otherwise.
\<close>

definition frame_content :: "platform \<Rightarrow> jsstring \<Rightarrow> jsstring" where
  "frame_content P rawEvent =
     (if is_raw P rawEvent then []
      else case envelope_content (parseJsonFromEvent P rawEvent) of None \<Rightarrow> [] | Some c \<Rightarrow> c)"

section \<open>The request transformer\<close>

text \<open>
  The request body as the transformer reads it.  An entry of \<open>tools\<close> and an entry of a
  message's \<open>tool_calls\<close> are objects and are represented by their \<open>function\<close>
  property, \<open>None\<close> when they have none; \<open>req_tools\<close> and \<open>msg_tool_calls\<close> are \<open>None\<close>
  unless the property is an array (\<open>Array.isArray\<close>), \<open>req_messages\<close> is \<open>None\<close> when the
  body has no \<open>messages\<close>, and the entries of \<open>messages\<close> are objects.  Every other
  property is \<open>None\<close> when it is \<open>undefined\<close>; a property the transformer does not read is
  kept in the \<open>others\<close> of its object.
\<close>

record tool_function =
  fn_name :: "json option"
  fn_description :: "json option"
  fn_parameters :: "json option"

type_synonym tool_entry = "tool_function option"

record call_function =
  cf_name :: "json option"
  cf_arguments :: "json option"

type_synonym call_entry = "call_function option"

record message =
  msg_role :: "json option"
  msg_content :: "json option"
  msg_tool_calls :: "call_entry list option"
  msg_name :: "json option"
  msg_tool_call_id :: "json option"
  msg_others :: "(jsstring \<times> json) list"

record request =
  req_messages :: "message list option"
  req_tools :: "tool_entry list option"
  req_tool_choice :: "json option"
  req_others :: "(jsstring \<times> json) list"

text \<open>
  \<open>x || ''\<close> where it is concatenated with a string or stands in a template, a value in a
  template (\<open>undefined\<close> prints as its name), \<open>xs.join(sep)\<close> for an array of strings, and
  \<open>JSON.stringify(v)\<close> in a template.
\<close>

definition text_or_empty :: "json option \<Rightarrow> jsstring" where
  "text_or_empty x = (if truthy_opt x then to_string (the x) else [])"

definition template_text :: "json option \<Rightarrow> jsstring" where
  "template_text x = (case x of None \<Rightarrow> str ''undefined'' | Some v \<Rightarrow> to_string v)"

fun join_with :: "jsstring \<Rightarrow> jsstring list \<Rightarrow> jsstring" where
  "join_with sep [] = []"
| "join_with sep [x] = x"
| "join_with sep (x # y # ys) = x @ sep @ join_with sep (y # ys)"

definition stringify_opt :: "platform \<Rightarrow> json option \<Rightarrow> jsstring" where
  "stringify_opt P v = (case v of None \<Rightarrow> str ''undefined'' | Some j \<Rightarrow> JSON_stringify P j)"

text \<open>\<open>a === b\<close> for two values decoded from JSON: two arrays or objects are never the same.\<close>

fun strict_equal :: "json option \<Rightarrow> json option \<Rightarrow> bool" where
  "strict_equal None None = True"
| "strict_equal (Some (JArr xs)) b = False"
| "strict_equal (Some (JObj kvs)) b = False"
| "strict_equal a b = (a = b)"

definition has_role :: "message \<Rightarrow> jsstring \<Rightarrow> bool" where
  "has_role msg role \<longleftrightarrow> msg_role msg = Some (JStr role)"

text \<open>\<open>Array.isArray(msg.tool_calls) && msg.tool_calls.length > 0\<close>.\<close>

definition has_calls :: "message \<Rightarrow> bool" where
  "has_calls msg = (case msg_tool_calls msg of Some (tc # tcs) \<Rightarrow> True | _ \<Rightarrow> False)"

text \<open>A message object built from a role and a content, with no other property.\<close>

definition plain_message :: "jsstring \<Rightarrow> jsstring \<Rightarrow> message" where
  "plain_message role content =
     \<lparr>msg_role = Some (JStr role), msg_content = Some (JStr content), msg_tool_calls = None,
      msg_name = None, msg_tool_call_id = None, msg_others = []\<rparr>"

subsection \<open>The system prompt\<close>

definition exampleToolName :: jsstring where
  "exampleToolName = str ''get_current_weather''"

definition exampleArgs :: jsstring where
  "exampleArgs = str ''{'' @ [34] @ str ''location'' @ [34] @ str '': '' @ [34] @ str ''Tokyo'' @ [34] @ str '', '' @ [34] @ str ''unit'' @ [34] @ str '': '' @ [34] @ str ''celsius'' @ [34] @ str ''}''"

text \<open>The line of one tool in the prompt; \<open>t\<close> is the \<open>function\<close> of the tool.\<close>

definition tool_line :: "platform \<Rightarrow> tool_function \<Rightarrow> jsstring" where
  "tool_line P t =
     str ''- **'' @ template_text (fn_name t) @ str ''**: ''
       @ (if truthy_opt (fn_description t) then to_string (the (fn_description t))
          else str ''No description'')
       @ [10] @ str ''  Parameters: '' @ stringify_opt P (fn_parameters t)"

text \<open>The template of the prompt around the lines of the tools, trimmed.\<close>

definition prompt_text :: "markers \<Rightarrow> jsstring \<Rightarrow> jsstring" where
  "prompt_text m tool_lines =
     trim
       ([10] @ str ''## Tool Usage Protocol'' @ [10, 10]
        @ str ''You are equipped with the following functional tools. You mu''
        @ str ''st use them to fulfill user requests when appropriate.'' @ [10, 10]
        @ str ''### Available Tools'' @ [10] @ tool_lines @ [10, 10] @ str ''### ''
        @ [0x26A0, 0xFE0F] @ str '' IMPORTANT: Protocol for Invoking Tools'' @ [10, 10]
        @ str ''To call a tool, you **MUST** follow this strict protocol. '' @ [10]
        @ str ''**DO NOT** return raw JSON. '' @ [10]
        @ str ''**DO NOT** use Markdown code blocks (like '' @ [96, 96, 96] @ str ''json).'' @ [10]
        @ str ''You **MUST** wrap the function call in the exact delimiters ''
        @ str ''shown below.'' @ [10, 10] @ str ''#### '' @ [0x2705]
        @ str '' Correct Format Example (Demonstration)'' @ [10, 10] @ str ''User: '' @ [34]
        @ str ''What'' @ [39] @ str ''s the weather in Tokyo?'' @ [34, 10] @ str ''Assistant:''
        @ [10] @ TC_START m @ [10] @ NAME_START m @ exampleToolName @ NAME_END m @ [10]
        @ ARGS_START m @ exampleArgs @ ARGS_END m @ [10] @ TC_END m @ [10, 10] @ str ''#### ''
        @ [0x274C] @ str '' Incorrect Formats (Do NOT do this)'' @ [10] @ str ''- {'' @ [34]
        @ str ''name'' @ [34] @ str '': '' @ [34] @ exampleToolName @ [34]
        @ str '', ...}  (Raw JSON is forbidden)'' @ [10] @ str ''- '' @ [96, 96, 96]
        @ str ''json ... '' @ [96, 96, 96] @ str '' (Markdown blocks are forbidden)'' @ [10, 10]
        @ str ''### Your Output Template'' @ [10]
        @ str ''When you decide to call a tool, append this block to the END''
        @ str '' of your response:'' @ [10, 10] @ TC_START m @ [10] @ NAME_START m
        @ str ''function_name'' @ NAME_END m @ [10] @ ARGS_START m @ str ''{'' @ [34]
        @ str ''param_key'' @ [34] @ str '': '' @ [34] @ str ''param_value'' @ [34] @ str ''}''
        @ ARGS_END m @ [10] @ TC_END m @ [10, 10] @ str ''### Operational Rules'' @ [10]
        @ str ''1. **Priority**: These formatting rules override any style g''
        @ str ''uidelines regarding '' @ [34] @ str ''code blocks'' @ [34] @ str '' or '' @ [34]
        @ str ''json output'' @ [34] @ str '' in other system prompts.'' @ [10]
        @ str ''2. **Placement**: Tool calls must appear at the very **END**''
        @ str '' of your message.'' @ [10]
        @ str ''3. **Integrity**: Copy the start/end delimiters EXACTLY as s''
        @ str ''hown. They are specialized characters.'' @ [10]
        @ str ''4. **Validity**: The arguments inside '' @ ARGS_START m @ str ''...'' @ ARGS_END m
        @ str '' must be valid, parseable JSON.'' @ [10])"

text \<open>
  \<open>getSystemPrompt(tools)\<close>.  Reading \<open>t.function.name\<close> of a tool without \<open>function\<close>
  throws.
\<close>

definition getSystemPrompt :: "platform \<Rightarrow> markers \<Rightarrow> tool_entry list \<Rightarrow> failure + jsstring" where
  "getSystemPrompt P m tools =
     (case those tools of
        None \<Rightarrow> Inl TypeError
      | Some fs \<Rightarrow> Inr (prompt_text m (join_with [10] (map (tool_line P) fs))))"

subsection \<open>The fictional tool of the one-shot demonstration\<close>

definition SCIFI_TOOL_DEF :: tool_function where
  "SCIFI_TOOL_DEF =
     \<lparr>fn_name = Some (JStr (str ''hyper_dimensional_resonance_calibrator'')),
      fn_description = Some (JStr (str ''Calibrates cross-dimensional subspace resonance frequencies ''
                           @ str ''to stabilize the quantum flux of Einstein-Rosen bridges. Use''
                           @ str '' only when dimensional rift fluctuation values exceed 5.0.'')),
      fn_parameters = Some (JObj
        [(str ''type'', JStr (str ''object'')),
         (str ''properties'', JObj
            [(str ''dimension_id'', JObj
                [(str ''type'', JStr (str ''string'')),
                 (str ''description'', JStr (str ''Target dimension coordinates, e.g. '' @ [39] @ str ''C-137'' @ [39]))]),
             (str ''flux_threshold'', JObj
                [(str ''type'', JStr (str ''number'')),
                 (str ''description'', JStr (str ''Maximum allowable flux fluctuation threshold''))]),
             (str ''stabilization_mode'', JObj
                [(str ''type'', JStr (str ''string'')),
                 (str ''enum'', JArr [JStr (str ''static''), JStr (str ''dynamic''), JStr (str ''hybrid'')]),
                 (str ''default'', JStr (str ''static''))])]),
         (str ''required'', JArr [JStr (str ''dimension_id''), JStr (str ''flux_threshold'')])])\<rparr>"

definition fakeCallArgs :: "platform \<Rightarrow> jsstring" where
  "fakeCallArgs P =
     JSON_stringify P
       (JObj [(str ''dimension_id'', JStr (str ''C-137'')),
              (str ''flux_threshold'', JNum (str ''5'')),
              (str ''stabilization_mode'', JStr (str ''static''))])"

definition fakeAssistantContent :: "platform \<Rightarrow> markers \<Rightarrow> jsstring" where
  "fakeAssistantContent P m =
     str ''Detected abnormal dimensional rift fluctuation (current valu''
       @ str ''e 5.2), immediate calibration of C-137 quadrant stability re'' @ str ''quired.''
       @ [10] @ TC_START m @ [10]
       @ NAME_START m @ str ''hyper_dimensional_resonance_calibrator'' @ NAME_END m @ [10]
       @ ARGS_START m @ fakeCallArgs P @ ARGS_END m @ [10]
       @ TC_END m"

definition fakeResultContent :: "platform \<Rightarrow> jsstring" where
  "fakeResultContent P =
     JSON_stringify P
       (JObj [(str ''status'', JStr (str ''calibrated'')),
              (str ''new_flux_index'', JNum (str ''0.42'')),
              (str ''entropy_delta'', JStr (str ''-3.14e-9'')),
              (str ''message'', JStr (str ''Resonance stabilized.''))])"

definition fakeToolResult :: "platform \<Rightarrow> markers \<Rightarrow> jsstring" where
  "fakeToolResult P m =
     RESULT_START m @ str ''[hyper_dimensional_resonance_calibrator]'' @ [10]
       @ fakeResultContent P @ RESULT_END m"

subsection \<open>Merging adjacent messages\<close>

text \<open>
  The loop of \<open>mergeAdjacentMessages\<close> with its variables \<open>merged\<close> and \<open>current\<close>, over
  the messages from the second on.
\<close>

fun merge_loop :: "message list \<Rightarrow> message \<Rightarrow> message list \<Rightarrow> message list" where
  "merge_loop merged current [] = merged @ [current]"
| "merge_loop merged current (msg # msgs) =
     (if strict_equal (msg_role msg) (msg_role current)
      then merge_loop merged
             (current\<lparr>msg_content :=
                Some (JStr (text_or_empty (msg_content current) @ [10, 10]
                            @ text_or_empty (msg_content msg)))\<rparr>) msgs
      else merge_loop (merged @ [current]) msg msgs)"

definition mergeAdjacentMessages :: "message list \<Rightarrow> message list" where
  "mergeAdjacentMessages messages =
     (case messages of [] \<Rightarrow> [] | first # msgs \<Rightarrow> merge_loop [] first msgs)"

subsection \<open>The transformation\<close>

definition hasToolHistory :: "request \<Rightarrow> bool" where
  "hasToolHistory body =
     (case req_messages body of
        None \<Rightarrow> False
      | Some msgs \<Rightarrow>
          list_ex (\<lambda>msg. has_role msg (str ''tool'')
                        \<or> (has_role msg (str ''assistant'') \<and> has_calls msg)) msgs)"

text \<open>
  The text that the calls of an assistant message add to its content when tools are
  enabled.  Reading \<open>tc.function.name\<close> of a call without \<open>function\<close> throws.
\<close>

fun encode_calls :: "markers \<Rightarrow> call_entry list \<Rightarrow> failure + jsstring" where
  "encode_calls m [] = Inr []"
| "encode_calls m (None # tcs) = Inl TypeError"
| "encode_calls m (Some f # tcs) =
     (case encode_calls m tcs of
        Inl e \<Rightarrow> Inl e
      | Inr rest \<Rightarrow>
          Inr ([10] @ TC_START m @ [10]
               @ NAME_START m @ template_text (cf_name f) @ NAME_END m @ [10]
               @ ARGS_START m @ template_text (cf_arguments f) @ ARGS_END m @ [10]
               @ TC_END m @ rest))"

text \<open>
  \<open>msg.tool_calls.map((tc) => tc.function?.name).filter(Boolean).join(', ')\<close>: the
  names that are truthy.
\<close>

definition called_names :: "call_entry list \<Rightarrow> jsstring" where
  "called_names tcs =
     join_with (str '', '')
       (map template_text
          (filter truthy_opt (map (\<lambda>tc. case tc of None \<Rightarrow> None | Some f \<Rightarrow> cf_name f) tcs)))"

text \<open>\<open>msg.name || msg.tool_call_id || 'unknown'\<close>, in a template.\<close>

definition result_name :: "message \<Rightarrow> jsstring" where
  "result_name msg =
     (if truthy_opt (msg_name msg) then to_string (the (msg_name msg))
      else if truthy_opt (msg_tool_call_id msg) then to_string (the (msg_tool_call_id msg))
      else str ''unknown'')"

text \<open>
  \<open>typeof msg.content === 'string' ? msg.content : JSON.stringify(msg.content)\<close>, in a
  template.
\<close>

definition result_text :: "platform \<Rightarrow> message \<Rightarrow> jsstring" where
  "result_text P msg =
     (case msg_content msg of
        Some (JStr s) \<Rightarrow> s
      | other \<Rightarrow> stringify_opt P other)"

text \<open>The body of the loop over the messages: what is pushed for one message.\<close>

definition transform_message ::
  "platform \<Rightarrow> markers \<Rightarrow> bool \<Rightarrow> jsstring \<Rightarrow> message \<Rightarrow> failure + message" where
  "transform_message P m hasTools toolSystemPrompt msg =
     (if has_role msg (str ''system'') then
        Inr (plain_message (str ''system'')
               (text_or_empty (msg_content msg)
                @ (if toolSystemPrompt \<noteq> [] then [10, 10] @ toolSystemPrompt else [])))
      else if has_role msg (str ''assistant'') \<and> has_calls msg then
        (if hasTools then
           (case encode_calls m (the (msg_tool_calls msg)) of
              Inl e \<Rightarrow> Inl e
            | Inr calls \<Rightarrow>
                Inr (plain_message (str ''assistant'') (text_or_empty (msg_content msg) @ calls)))
         else
           Inr (plain_message (str ''assistant'')
                  (text_or_empty (msg_content msg)
                   @ [10, 10] @ str ''[Called tools: ''
                   @ called_names (the (msg_tool_calls msg)) @ str '']'')))
      else if has_role msg (str ''tool'') then
        (if hasTools then
           Inr (plain_message (str ''user'')
                  (RESULT_START m @ str ''['' @ result_name msg @ str '']'' @ [10]
                   @ result_text P msg @ RESULT_END m))
         else
           Inr (plain_message (str ''user'')
                  (str ''[Tool result: '' @ result_name msg @ str '']'' @ [10]
                   @ result_text P msg)))
      else Inr msg)"

fun transform_messages ::
  "platform \<Rightarrow> markers \<Rightarrow> bool \<Rightarrow> jsstring \<Rightarrow> message list \<Rightarrow> failure + message list" where
  "transform_messages P m hasTools toolSystemPrompt [] = Inr []"
| "transform_messages P m hasTools toolSystemPrompt (msg # msgs) =
     (case transform_message P m hasTools toolSystemPrompt msg of
        Inl e \<Rightarrow> Inl e
      | Inr out \<Rightarrow>
          (case transform_messages P m hasTools toolSystemPrompt msgs of
             Inl e \<Rightarrow> Inl e
           | Inr outs \<Rightarrow> Inr (out # outs)))"

text \<open>\<open>transformRequest(request, { hasTools })\<close>.\<close>

definition transformRequest :: "platform \<Rightarrow> markers \<Rightarrow> bool \<Rightarrow> request \<Rightarrow> failure + request" where
  "transformRequest P m hasTools request =
     (let rawMessages = (case req_messages request of None \<Rightarrow> [] | Some msgs \<Rightarrow> msgs);
          historyExists = hasToolHistory request;
          shouldInjectOneShot =
            (hasTools \<and> \<not> historyExists \<and> rawMessages \<noteq> []
             \<and> has_role (last rawMessages) (str ''user''));
          activeTools =
            (case req_tools request of None \<Rightarrow> [] | Some tools \<Rightarrow> tools)
              @ (if shouldInjectOneShot then [Some SCIFI_TOOL_DEF] else [])
      in case (if hasTools \<and> activeTools \<noteq> [] then getSystemPrompt P m activeTools else Inr []) of
           Inl e \<Rightarrow> Inl e
         | Inr toolSystemPrompt \<Rightarrow>
             (case transform_messages P m hasTools toolSystemPrompt rawMessages of
                Inl e \<Rightarrow> Inl e
              | Inr outMessages \<Rightarrow>
                  (let hasSystem = list_ex (\<lambda>msg. has_role msg (str ''system'')) rawMessages;
                       withSystem =
                         (if \<not> hasSystem \<and> toolSystemPrompt \<noteq> []
                          then plain_message (str ''system'') toolSystemPrompt # outMessages
                          else outMessages);
                       withOneShot =
                         (if shouldInjectOneShot \<and> withSystem \<noteq> []
                             \<and> has_role (last withSystem) (str ''user'')
                          then butlast withSystem
                               @ [plain_message (str ''assistant'') (fakeAssistantContent P m),
                                  plain_message (str ''user'') (fakeToolResult P m),
                                  last withSystem]
                          else withSystem)
                   in Inr (request\<lparr>req_messages := Some (mergeAdjacentMessages withOneShot),
                                   req_tools := None, req_tool_choice := None\<rparr>))))"

text \<open>
  The body that \<open>handleRequest\<close> sends upstream for a chat completion request: the
  transformer runs when the request has tools or a tool history.
\<close>

definition requestHasTools_of :: "request \<Rightarrow> bool" where
  "requestHasTools_of body = (case req_tools body of Some (t # ts) \<Rightarrow> True | _ \<Rightarrow> False)"

definition upstream_body :: "platform \<Rightarrow> markers \<Rightarrow> request \<Rightarrow> failure + request" where
  "upstream_body P m body =
     (let needsTransform = (requestHasTools_of body \<or> hasToolHistory body)
      in if needsTransform then transformRequest P m (requestHasTools_of body) body else Inr body)"

section \<open>The transformed messages, described\<close>

text \<open>
  What the loop of \<open>transformRequest\<close> pushes for a message that carries neither tool
  calls nor a tool result, when the prompt is not empty: a system message takes the
  prompt after its own text, any other message is handed on.
\<close>

definition extend_system :: "jsstring \<Rightarrow> message \<Rightarrow> message" where
  "extend_system prompt msg =
     (if has_role msg (str ''system'')
      then plain_message (str ''system'') (text_or_empty (msg_content msg) @ [10, 10] @ prompt)
      else msg)"

text \<open>
  A text occurs in a decoded value when it occurs in one of its strings, in a property
  name or in the text of a number, at any depth.
\<close>

fun mentions :: "jsstring \<Rightarrow> json \<Rightarrow> bool"
  and mentions_list :: "jsstring \<Rightarrow> json list \<Rightarrow> bool"
  and mentions_props :: "jsstring \<Rightarrow> (jsstring \<times> json) list \<Rightarrow> bool" where
  "mentions t JNull = False"
| "mentions t (JBool b) = False"
| "mentions t (JNum n) = sublist t n"
| "mentions t (JStr s) = sublist t s"
| "mentions t (JArr xs) = mentions_list t xs"
| "mentions t (JObj kvs) = mentions_props t kvs"
| "mentions_list t [] = False"
| "mentions_list t (x # xs) = (mentions t x \<or> mentions_list t xs)"
| "mentions_props t [] = False"
| "mentions_props t ((k, v) # kvs) = (sublist t k \<or> mentions t v \<or> mentions_props t kvs)"

text \<open>
  A text, and a property of a message, in which no token of the marker set occurs.  A
  message is clean when no token occurs in what the transformer reads from it: its
  content, its \<open>name\<close> and \<open>tool_call_id\<close>, the names of its calls and, for a tool
  message, the text of the result.
\<close>

definition token_free :: "markers \<Rightarrow> jsstring \<Rightarrow> bool" where
  "token_free m s = list_all (\<lambda>t. \<not> sublist t s) (tokens m)"

definition json_token_free :: "markers \<Rightarrow> json option \<Rightarrow> bool" where
  "json_token_free m v =
     (case v of None \<Rightarrow> True | Some j \<Rightarrow> list_all (\<lambda>t. \<not> mentions t j) (tokens m))"

definition clean_message :: "platform \<Rightarrow> markers \<Rightarrow> message \<Rightarrow> bool" where
  "clean_message P m msg \<longleftrightarrow>
     json_token_free m (msg_content msg)
     \<and> json_token_free m (msg_name msg)
     \<and> json_token_free m (msg_tool_call_id msg)
     \<and> (case msg_tool_calls msg of
          None \<Rightarrow> True
        | Some tcs \<Rightarrow>
            list_all (\<lambda>tc. case tc of None \<Rightarrow> True | Some f \<Rightarrow> json_token_free m (cf_name f)) tcs)
     \<and> (has_role msg (str ''tool'') \<longrightarrow> token_free m (result_text P msg))"

text \<open>
  The names that the note of an assistant message lists: those of its calls that are
  truthy, as texts, in order.
\<close>

fun listed_names :: "call_entry list \<Rightarrow> jsstring list" where
  "listed_names [] = []"
| "listed_names (None # tcs) = listed_names tcs"
| "listed_names (Some f # tcs) =
     (case cf_name f of
        None \<Rightarrow> listed_names tcs
      | Some n \<Rightarrow> if truthy n then to_string n # listed_names tcs else listed_names tcs)"

text \<open>
  What a message of the history becomes when the request has no tools: a system message
  keeps its text, an assistant message that bears calls keeps its text and gets the note
  of the called names, a tool message becomes a user message with the note of its
  result, any other message is handed on.
\<close>

definition history_note :: "platform \<Rightarrow> message \<Rightarrow> message" where
  "history_note P msg =
     (if has_role msg (str ''system'') then
        plain_message (str ''system'') (text_or_empty (msg_content msg))
      else if has_role msg (str ''assistant'') \<and> has_calls msg then
        plain_message (str ''assistant'')
          (text_or_empty (msg_content msg) @ [10, 10] @ str ''[Called tools: ''
           @ join_with (str '', '') (listed_names (the (msg_tool_calls msg))) @ str '']'')
      else if has_role msg (str ''tool'') then
        plain_message (str ''user'')
          (str ''[Tool result: '' @ result_name msg @ str '']'' @ [10] @ result_text P msg)
      else msg)"

text \<open>
  A token made of code units from 128 on, a text made of code units below 128, and a
  message without calls whose content is free of tokens.
\<close>

definition high_token :: "jsstring \<Rightarrow> bool" where
  "high_token t \<longleftrightarrow> t \<noteq> [] \<and> list_all (\<lambda>u. 128 \<le> u) t"

definition ascii_text :: "jsstring \<Rightarrow> bool" where
  "ascii_text g \<longleftrightarrow> list_all (\<lambda>u. u < 128) g"

definition tidy :: "markers \<Rightarrow> message \<Rightarrow> bool" where
  "tidy m msg \<longleftrightarrow> \<not> has_calls msg \<and> json_token_free m (msg_content msg)"

section \<open>Example requests\<close>

text \<open>
  A message as a client sends it, a tool, a request that is the first turn of a
  conversation and one with an earlier exchange, both with the tool, and the prompt
  that lists the tool and the fictional tool.
\<close>

definition client_message :: "string \<Rightarrow> string \<Rightarrow> message" where
  "client_message role content =
     \<lparr>msg_role = Some (JStr (str role)), msg_content = Some (JStr (str content)),
      msg_tool_calls = None, msg_name = None, msg_tool_call_id = None, msg_others = []\<rparr>"

definition weather_tool :: tool_function where
  "weather_tool =
     \<lparr>fn_name = Some (JStr (str ''get_weather'')),
      fn_description = Some (JStr (str ''Weather of a city'')),
      fn_parameters = Some (JObj [(str ''type'', JStr (str ''object''))])\<rparr>"

definition first_turn_request :: request where
  "first_turn_request =
     \<lparr>req_messages = Some [client_message ''user'' ''hi''],
      req_tools = Some [Some weather_tool],
      req_tool_choice = Some (JStr (str ''auto'')),
      req_others = [(str ''model'', JStr (str ''m1''))]\<rparr>"

definition later_turn_request :: request where
  "later_turn_request =
     \<lparr>req_messages = Some [client_message ''user'' ''a'', client_message ''assistant'' ''b'',
                           client_message ''user'' ''c''],
      req_tools = Some [Some weather_tool],
      req_tool_choice = None,
      req_others = []\<rparr>"

definition example_prompt :: jsstring where
  "example_prompt =
     prompt_text example_markers
       (join_with [10] [tool_line example_platform weather_tool,
                        tool_line example_platform SCIFI_TOOL_DEF])"

text \<open>
  A history: an assistant message that bears two calls, the results of the calls, and
  two requests with an empty tool list.  The first user message of the second request
  quotes the call-start token.
\<close>

definition calling_message :: message where
  "calling_message =
     \<lparr>msg_role = Some (JStr (str ''assistant'')), msg_content = Some JNull,
      msg_tool_calls = Some [Some \<lparr>cf_name = Some (JStr (str ''get_weather'')),
                                   cf_arguments = Some (JStr (str ''{}''))\<rparr>,
                             Some \<lparr>cf_name = Some (JStr (str ''get_time'')),
                                   cf_arguments = Some (JStr (str ''{}''))\<rparr>],
      msg_name = None, msg_tool_call_id = None, msg_others = []\<rparr>"

definition result_message :: message where
  "result_message =
     \<lparr>msg_role = Some (JStr (str ''tool'')), msg_content = Some (JStr (str ''sunny'')),
      msg_tool_calls = None, msg_name = None,
      msg_tool_call_id = Some (JStr (str ''call_1'')), msg_others = []\<rparr>"

definition named_result_message :: message where
  "named_result_message =
     \<lparr>msg_role = Some (JStr (str ''tool'')), msg_content = Some (JStr (str ''noon'')),
      msg_tool_calls = None, msg_name = Some (JStr (str ''get_time'')),
      msg_tool_call_id = Some (JStr (str ''call_2'')), msg_others = []\<rparr>"

definition history_request :: request where
  "history_request =
     \<lparr>req_messages = Some [client_message ''user'' ''weather?'', calling_message,
                           result_message, named_result_message,
                           client_message ''user'' ''thanks''],
      req_tools = Some [], req_tool_choice = None,
      req_others = [(str ''model'', JStr (str ''m1''))]\<rparr>"

definition quoting_message :: message where
  "quoting_message =
     \<lparr>msg_role = Some (JStr (str ''user'')),
      msg_content = Some (JStr (str ''what is '' @ TC_START example_markers @ str ''?'')),
      msg_tool_calls = None, msg_name = None, msg_tool_call_id = None, msg_others = []\<rparr>"

definition quoting_request :: request where
  "quoting_request =
     \<lparr>req_messages = Some [quoting_message, calling_message, result_message],
      req_tools = Some [], req_tool_choice = None, req_others = []\<rparr>"

section \<open>Properties of the marker set\<close>

definition fixed_units :: "nat set" where
  "fixed_units = {0x1405, 0x140A, 0x25B8, 0x25C2, 0x25B9, 0x25C3, 0x27EB, 0x27EA}"

lemma suffix_pool_units:
  "\<forall>x \<in> set SUFFIX_POOL. \<exists>s. x = [s] \<and> s \<notin> fixed_units"
  by (simp add: SUFFIX_POOL_def fixed_units_def)

lemma delimiter_set_units:
  "\<forall>d \<in> set DELIMITER_SETS. \<exists>a b c. d_open d = [a] \<and> d_close d = [b] \<and> d_mid d = [c]
      \<and> a \<notin> fixed_units \<and> b \<notin> fixed_units \<and> c \<notin> fixed_units"
  by (simp add: DELIMITER_SETS_def fixed_units_def)

lemma token_shapes_apart:
  assumes "a \<notin> fixed_units" "b \<notin> fixed_units" "c \<notin> fixed_units"
    and "s1 \<notin> fixed_units" "s2 \<notin> fixed_units"
    and ts: "ts = [[a, s1, 0x1405], [0x140A, s1, b], [c, 0x25B8], [0x25C2, c],
                   [c, 0x25B9], [0x25C3, c], [a, s2, 0x27EB], [0x27EA, s2, b]]"
  shows "distinct ts \<and> (\<forall>x \<in> set ts. \<forall>y \<in> set ts. x \<noteq> y \<longrightarrow> \<not> sublist x y)"
  using assms unfolding fixed_units_def
  by (simp add: sublist_Cons_right prefix_Cons)

lemma generateMarkers_shape:
  assumes "r0 < length DELIMITER_SETS" "r1 < length SUFFIX_POOL" "r2 < length SUFFIX_POOL"
  shows "\<exists>a b c s1 s2. a \<notin> fixed_units \<and> b \<notin> fixed_units \<and> c \<notin> fixed_units
          \<and> s1 \<notin> fixed_units \<and> s2 \<notin> fixed_units
          \<and> generateMarkers r0 r1 r2 =
              \<lparr>TC_START = [a, s1, 0x1405], TC_END = [0x140A, s1, b],
               NAME_START = [c, 0x25B8], NAME_END = [0x25C2, c],
               ARGS_START = [c, 0x25B9], ARGS_END = [0x25C3, c],
               RESULT_START = [a, s2, 0x27EB], RESULT_END = [0x27EA, s2, b]\<rparr>"
proof -
  obtain s1 where s1: "SUFFIX_POOL ! r1 = [s1]" "s1 \<notin> fixed_units"
    using suffix_pool_units nth_mem[OF assms(2)] by blast
  obtain s2 where s2: "SUFFIX_POOL ! r2 = [s2]" "s2 \<notin> fixed_units"
    using suffix_pool_units nth_mem[OF assms(3)] by blast
  obtain a b c where d: "d_open (DELIMITER_SETS ! r0) = [a]" "d_close (DELIMITER_SETS ! r0) = [b]"
      "d_mid (DELIMITER_SETS ! r0) = [c]" "a \<notin> fixed_units" "b \<notin> fixed_units" "c \<notin> fixed_units"
    using delimiter_set_units nth_mem[OF assms(1)] by blast
  have "generateMarkers r0 r1 r2 =
              \<lparr>TC_START = [a, s1, 0x1405], TC_END = [0x140A, s1, b],
               NAME_START = [c, 0x25B8], NAME_END = [0x25C2, c],
               ARGS_START = [c, 0x25B9], ARGS_END = [0x25C3, c],
               RESULT_START = [a, s2, 0x27EB], RESULT_END = [0x27EA, s2, b]\<rparr>"
    by (simp add: generateMarkers_def Let_def s1 s2 d)
  with d(4-6) s1(2) s2(2) show ?thesis by blast
qed

text \<open>
  C9 (as amended).  For every outcome of the three random draws, the eight tokens of the
  generated marker set are pairwise distinct and none is a substring of another.  The
  two decorative suffixes are drawn independently of each other, so nothing is said
  about their being different.
\<close>

theorem generateMarkers_tokens_apart:
  assumes "r0 < length DELIMITER_SETS" "r1 < length SUFFIX_POOL" "r2 < length SUFFIX_POOL"
  shows "length (tokens (generateMarkers r0 r1 r2)) = 8
       \<and> distinct (tokens (generateMarkers r0 r1 r2))
       \<and> (\<forall>x \<in> set (tokens (generateMarkers r0 r1 r2)).
            \<forall>y \<in> set (tokens (generateMarkers r0 r1 r2)). x \<noteq> y \<longrightarrow> \<not> sublist x y)"
proof -
  obtain a b c s1 s2 where u: "a \<notin> fixed_units" "b \<notin> fixed_units" "c \<notin> fixed_units"
      "s1 \<notin> fixed_units" "s2 \<notin> fixed_units"
    and g: "generateMarkers r0 r1 r2 =
              \<lparr>TC_START = [a, s1, 0x1405], TC_END = [0x140A, s1, b],
               NAME_START = [c, 0x25B8], NAME_END = [0x25C2, c],
               ARGS_START = [c, 0x25B9], ARGS_END = [0x25C3, c],
               RESULT_START = [a, s2, 0x27EB], RESULT_END = [0x27EA, s2, b]\<rparr>"
    using generateMarkers_shape[OF assms] by blast
  have "distinct (tokens (generateMarkers r0 r1 r2))
       \<and> (\<forall>x \<in> set (tokens (generateMarkers r0 r1 r2)).
            \<forall>y \<in> set (tokens (generateMarkers r0 r1 r2)). x \<noteq> y \<longrightarrow> \<not> sublist x y)"
    by (rule token_shapes_apart[OF u]) (simp add: tokens_def g)
  then show ?thesis by (simp add: tokens_def)
qed

theorem generateMarkers_tokens_apart_witness:
  "(3::nat) < length DELIMITER_SETS \<and> (0::nat) < length SUFFIX_POOL \<and> (7::nat) < length SUFFIX_POOL
   \<and> distinct (tokens (generateMarkers 3 0 7))
   \<and> \<not> sublist (NAME_START (generateMarkers 3 0 7)) (TC_START (generateMarkers 3 0 7))"
proof -
  have h: "(3::nat) < length DELIMITER_SETS" "(0::nat) < length SUFFIX_POOL" "(7::nat) < length SUFFIX_POOL"
    by (simp_all add: DELIMITER_SETS_def SUFFIX_POOL_def)
  have m: "NAME_START (generateMarkers 3 0 7) \<in> set (tokens (generateMarkers 3 0 7))"
      "TC_START (generateMarkers 3 0 7) \<in> set (tokens (generateMarkers 3 0 7))"
    by (simp_all add: tokens_def)
  have ne: "NAME_START (generateMarkers 3 0 7) \<noteq> TC_START (generateMarkers 3 0 7)"
    by (simp add: generateMarkers_def Let_def DELIMITER_SETS_def)
  from generateMarkers_tokens_apart[OF h] m ne h show ?thesis by blast
qed

text \<open>
  The draws \<open>r1 = r2\<close> are a possible outcome: both suffixes are then the same
  character, here \<open>0x9F98\<close> in the call-start and in the result-start token.
\<close>

theorem generateMarkers_same_suffix:
  "(0::nat) < length DELIMITER_SETS \<and> (0::nat) < length SUFFIX_POOL
   \<and> generateMarkers 0 0 0 =
       \<lparr>TC_START = [0x0F12, 0x9F98, 0x1405], TC_END = [0x140A, 0x9F98, 0x0F12],
        NAME_START = [0x0FC7, 0x25B8], NAME_END = [0x25C2, 0x0FC7],
        ARGS_START = [0x0FC7, 0x25B9], ARGS_END = [0x25C3, 0x0FC7],
        RESULT_START = [0x0F12, 0x9F98, 0x27EB], RESULT_END = [0x27EA, 0x9F98, 0x0F12]\<rparr>"
  by (simp add: generateMarkers_def Let_def DELIMITER_SETS_def SUFFIX_POOL_def)

section \<open>Properties of the pattern matcher and of parse\<close>

lemma rx_match_suffix:
  "rx_match rs s = Some (caps, rest) \<Longrightarrow> \<exists>used. s = used @ rest"
proof (induction rs s arbitrary: caps rest rule: rx_match.induct)
  case (1 s)
  then show ?case by simp
next
  case (2 l rs s)
  then show ?case by (auto simp: prefix_def split: if_splits)
next
  case (3 rs)
  then show ?case by simp
next
  case (4 rs c cs)
  then show ?case by (fastforce split: if_splits option.splits)
next
  case (5 rs)
  then show ?case by (fastforce split: option.splits)
next
  case (6 rs c cs)
  then show ?case by (fastforce split: if_splits option.splits list.splits prod.splits)
qed

lemma rx_match_length:
  "rx_match rs s = Some (caps, rest) \<Longrightarrow> length rest \<le> length s"
  using rx_match_suffix by fastforce

lemma rx_match_Lit_consumes:
  assumes "l \<noteq> []" "rx_match (Lit l # rs) s = Some (caps, rest)"
  shows "length rest < length s"
proof -
  from assms(2) have p: "prefix l s" and r: "rx_match rs (drop (length l) s) = Some (caps, rest)"
    by (auto split: if_splits)
  from p assms(1) have "length (drop (length l) s) < length s"
    by (cases s) (auto simp: prefix_def)
  with rx_match_length[OF r] show ?thesis by simp
qed

lemma rx_search_split:
  "rx_search p s = Some (pre, caps, rest) \<Longrightarrow>
     \<exists>tl. s = pre @ tl \<and> rx_match p tl = Some (caps, rest)"
proof (induction s arbitrary: pre)
  case Nil
  then show ?case by (auto split: option.splits)
next
  case (Cons c cs)
  show ?case
  proof (cases "rx_match p (c # cs)")
    case (Some a)
    with Cons.prems show ?thesis by (cases a) auto
  next
    case None
    with Cons.prems obtain pre' where
      r: "rx_search p cs = Some (pre', caps, rest)" and pre: "pre = c # pre'"
      by (auto split: option.splits)
    from Cons.IH[OF r] obtain tl where "cs = pre' @ tl" "rx_match p tl = Some (caps, rest)" by blast
    with pre show ?thesis by simp
  qed
qed

lemma rx_search_consumes:
  assumes "TC_START m \<noteq> []" "rx_search (pattern m) s = Some (pre, caps, rest)"
  shows "length rest < length s"
proof -
  from rx_search_split[OF assms(2)] obtain tl where
    s: "s = pre @ tl" and mt: "rx_match (pattern m) tl = Some (caps, rest)" by blast
  from mt have "length rest < length tl"
    unfolding pattern_def by (rule rx_match_Lit_consumes[OF assms(1)])
  with s show ?thesis by simp
qed

lemma rx_match_Lit_absent:
  "\<not> sublist l s \<Longrightarrow> l \<noteq> [] \<Longrightarrow> rx_search (Lit l # rs) s = None"
proof (induction s)
  case Nil
  then show ?case by simp
next
  case (Cons c cs)
  then have "\<not> prefix l (c # cs)" "\<not> sublist l cs"
    by (auto simp: sublist_Cons_right)
  with Cons show ?case by simp
qed





lemma scan_segments_None:
  "rx_search (pattern m) s = None \<Longrightarrow> scan_segments m s = [Gap s]"
  by (simp add: scan_segments.simps)

lemma scan_segments_Some:
  assumes "TC_START m \<noteq> []" "rx_search (pattern m) s = Some (pre, caps, rest)"
  shows "scan_segments m s =
     Gap pre # Region (take (length s - length pre - length rest) (drop (length pre) s)) (caps ! 0) (caps ! 1)
       # scan_segments m rest"
  using rx_search_consumes[OF assms] assms(2) by (simp add: scan_segments.simps)




lemma exec_loop_segments:
  assumes "TC_START m \<noteq> []"
  shows "exec_loop P m idx s = Some (number_calls P idx (concat (map (seg_call P) (scan_segments m s))))"
proof (induction s arbitrary: idx rule: length_induct)
  case (1 s)
  show ?case
  proof (cases "rx_search (pattern m) s")
    case None
    then show ?thesis by (simp add: scan_segments_None exec_loop.simps)
  next
    case (Some x)
    obtain pre caps rest where "x = (pre, caps, rest)" by (cases x)
    with Some have rs: "rx_search (pattern m) s = Some (pre, caps, rest)" by simp
    note lt = rx_search_consumes[OF assms rs]
    from lt "1.IH" have ih: "\<And>i. exec_loop P m i rest =
        Some (number_calls P i (concat (map (seg_call P) (scan_segments m rest))))" by blast
    show ?thesis
    proof (cases "JSON_parse P (trim (caps ! 1))")
      case None
      then show ?thesis
        using lt rs ih by (simp add: scan_segments_Some[OF assms rs] exec_loop.simps[of P m idx s])
    next
      case (Some v)
      then show ?thesis
        using lt rs ih by (simp add: scan_segments_Some[OF assms rs] exec_loop.simps[of P m idx s])
    qed
  qed
qed

lemma replace_all_segments:
  assumes "TC_START m \<noteq> []"
  shows "replace_all m s = concat (map seg_gap (scan_segments m s))"
proof (induction s rule: length_induct)
  case (1 s)
  show ?case
  proof (cases "rx_search (pattern m) s")
    case None
    then show ?thesis by (simp add: scan_segments_None replace_all.simps)
  next
    case (Some x)
    obtain pre caps rest where "x = (pre, caps, rest)" by (cases x)
    with Some have rs: "rx_search (pattern m) s = Some (pre, caps, rest)" by simp
    note lt = rx_search_consumes[OF assms rs]
    from lt "1.IH" have "replace_all m rest = concat (map seg_gap (scan_segments m rest))" by blast
    then show ?thesis
      using lt rs by (simp add: scan_segments_Some[OF assms rs] replace_all.simps[of m s])
  qed
qed

lemma map_call_sig_number_calls: "map call_sig (number_calls P idx xs) = xs"
  by (induction xs arbitrary: idx) (auto simp: call_sig_def)

lemma no_start_no_match:
  assumes "TC_START m \<noteq> []" "\<not> sublist (TC_START m) s"
  shows "rx_search (pattern m) s = None"
  unfolding pattern_def using rx_match_Lit_absent[OF assms(2,1)] .




lemma example_markers_eq:
  "example_markers =
       \<lparr>TC_START = [0x0F12, 0x9F98, 0x1405], TC_END = [0x140A, 0x9F98, 0x0F12],
        NAME_START = [0x0FC7, 0x25B8], NAME_END = [0x25C2, 0x0FC7],
        ARGS_START = [0x0FC7, 0x25B9], ARGS_END = [0x25C3, 0x0FC7],
        RESULT_START = [0x0F12, 0x9F98, 0x27EB], RESULT_END = [0x27EA, 0x9F98, 0x0F12]\<rparr>"
  by (simp add: example_markers_def generateMarkers_def Let_def DELIMITER_SETS_def SUFFIX_POOL_def)

lemmas example_eval =
  example_markers_eq block_def str_def pattern_def is_ws_def trim_def example_platform_def
  example_JSON_parse_def envelope_open_def envelope_close_def envelope_def

lemma parse_by_segments:
  assumes "TC_START m \<noteq> []"
  shows "parse P m text =
     Some \<lparr>toolCalls = number_calls P 0 (concat (map (seg_call P) (scan_segments m text))),
           cleanContent = trim (concat (map seg_gap (scan_segments m text)))\<rparr>"
  by (simp add: parse_def exec_loop_segments[OF assms] replace_all_segments[OF assms])







section \<open>Properties of the non-stream finisher\<close>

lemma opt_prop_SomeD:
  "opt_prop v k = Some x \<Longrightarrow> \<exists>kvs. v = Some (JObj kvs) \<and> map_of kvs k = Some x"
  by (cases "(v, k)" rule: opt_prop.cases) (auto elim: get_prop.elims)

lemma opt_idx0_Some_objD:
  "opt_idx0 v = Some (JObj ck) \<Longrightarrow>
     (\<exists>xs. v = Some (JArr (JObj ck # xs))) \<or> (\<exists>kvs. v = Some (JObj kvs) \<and> map_of kvs (str ''0'') = Some (JObj ck))"
  by (cases v rule: opt_idx0.cases) (auto elim: get_idx0.elims)

lemma opt_idx0_set_idx0:
  assumes "opt_idx0 (Some ch) = Some (JObj ck)"
  shows "opt_idx0 (Some (set_idx0 ch x)) = Some x"
  using opt_idx0_Some_objD[OF assms] by (auto simp: update_conv')

lemma primary_content_shape:
  assumes "primary_content data = Some c"
  obtains kvs ch ck mk where "data = JObj kvs" "map_of kvs (str ''choices'') = Some ch"
     "opt_idx0 (Some ch) = Some (JObj ck)"
     "map_of ck (str ''message'') = Some (JObj mk)" "map_of mk (str ''content'') = Some c"
proof -
  from assms obtain mk where pm: "primary_message data = Some (JObj mk)"
    and c: "map_of mk (str ''content'') = Some c"
    unfolding primary_content_def using opt_prop_SomeD by blast
  from pm obtain ck where i0: "opt_idx0 (opt_prop (Some data) (str ''choices'')) = Some (JObj ck)"
    and mm: "map_of ck (str ''message'') = Some (JObj mk)"
    unfolding primary_message_def using opt_prop_SomeD by blast
  from opt_idx0_Some_objD[OF i0] obtain ch where ch: "opt_prop (Some data) (str ''choices'') = Some ch"
    by auto
  from opt_prop_SomeD[OF ch] obtain kvs where "data = JObj kvs" "map_of kvs (str ''choices'') = Some ch"
    by auto
  with i0 ch mm c that show ?thesis by simp
qed

lemma get_idx0_opt: "opt_idx0 (Some ch) = Some x \<Longrightarrow> get_idx0 ch = Some x"
  by (cases ch) auto

lemma finish_response_updates:
  assumes pc: "primary_content data = Some (JStr text)" and ne: "text \<noteq> []"
    and p: "parse P m text = Some r" and tc: "toolCalls r \<noteq> []"
  shows "\<exists>data'. finish_response P m True data = Inr data'
             \<and> opt_prop (primary_message data') (str ''tool_calls'') = Some (JArr (map call_json (toolCalls r)))
             \<and> primary_content data' = Some (if cleanContent r = [] then JNull else JStr (cleanContent r))
             \<and> opt_prop (opt_idx0 (opt_prop (Some data') (str ''choices''))) (str ''finish_reason'')
                 = Some (JStr (str ''tool_calls''))"
proof -
  from primary_content_shape[OF pc] obtain kvs ch ck mk where
    d: "data = JObj kvs" "map_of kvs (str ''choices'') = Some ch"
     "opt_idx0 (Some ch) = Some (JObj ck)"
     "map_of ck (str ''message'') = Some (JObj mk)" "map_of mk (str ''content'') = Some (JStr text)"
    by blast
  define nc where "nc = (if cleanContent r = [] then JNull else JStr (cleanContent r))"
  define message2 where "message2 = JObj (AList.update (str ''content'') nc
       (AList.update (str ''tool_calls'') (JArr (map call_json (toolCalls r))) mk))"
  define choice2 where "choice2 = JObj (AList.update (str ''finish_reason'') (JStr (str ''tool_calls''))
       (AList.update (str ''message'') message2 ck))"
  define data' where "data' = JObj (AList.update (str ''choices'') (set_idx0 ch choice2) kvs)"
  have k: "str ''content'' \<noteq> str ''tool_calls''" "str ''finish_reason'' \<noteq> str ''message''"
    by (simp_all add: str_def)
  have f: "finish_response P m True data = Inr data'"
    using pc ne p tc d get_idx0_opt[OF d(3)]
    by (auto simp add: finish_response_def parse_value_def Let_def data'_def choice2_def message2_def nc_def)
  have c0: "opt_idx0 (opt_prop (Some data') (str ''choices'')) = Some choice2"
    unfolding data'_def using opt_idx0_set_idx0[OF d(3)] by (simp add: update_conv')
  have pm: "primary_message data' = Some message2"
    unfolding primary_message_def c0 by (simp add: choice2_def update_conv' k k[symmetric])
  have 1: "opt_prop (primary_message data') (str ''tool_calls'') = Some (JArr (map call_json (toolCalls r)))"
    unfolding pm by (simp add: message2_def update_conv' k k[symmetric])
  have 2: "primary_content data' = Some nc"
    unfolding primary_content_def pm by (simp add: message2_def update_conv')
  have 3: "opt_prop (opt_idx0 (opt_prop (Some data') (str ''choices''))) (str ''finish_reason'')
                 = Some (JStr (str ''tool_calls''))"
    unfolding c0 by (simp add: choice2_def update_conv')
  from f 1 2 3 show ?thesis unfolding nc_def by blast
qed

lemma number_calls_json:
  "map call_json (number_calls P idx xs)
   = map (\<lambda>c. JObj [(str ''id'', JStr (tc_id c)),
                    (str ''type'', JStr (str ''function'')),
                    (str ''function'',
                       JObj [(str ''name'', JStr (tc_name c)),
                             (str ''arguments'', JStr (tc_arguments c))])])
       (number_calls P idx xs)"
  by (induction xs arbitrary: idx) (auto simp: call_json_def)

lemma finish_response_exact:
  assumes M: "TC_START m \<noteq> []"
    and pc: "primary_content data = Some (JStr text)" and ne: "text \<noteq> []"
    and p: "parse P m text = Some r" and tc: "toolCalls r \<noteq> []"
  shows "\<exists>kvs ch ck mk.
      data = JObj kvs \<and> map_of kvs (str ''choices'') = Some ch
    \<and> map_of ck (str ''message'') = Some (JObj mk)
    \<and> map_of mk (str ''content'') = Some (JStr text)
    \<and> (let calls = JArr (map (\<lambda>c. JObj [(str ''id'', JStr (tc_id c)),
                                        (str ''type'', JStr (str ''function'')),
                                        (str ''function'',
                                           JObj [(str ''name'', JStr (tc_name c)),
                                                 (str ''arguments'', JStr (tc_arguments c))])])
                           (toolCalls r));
            residual = (if cleanContent r = [] then JNull else JStr (cleanContent r));
            message' = JObj (AList.update (str ''content'') residual
                              (AList.update (str ''tool_calls'') calls mk));
            choice' = JObj (AList.update (str ''finish_reason'') (JStr (str ''tool_calls''))
                              (AList.update (str ''message'') message' ck))
        in (\<exists>others. ch = JArr (JObj ck # others)
              \<and> finish_response P m True data
                  = Inr (JObj (AList.update (str ''choices'') (JArr (choice' # others)) kvs)))
         \<or> (\<exists>cv. ch = JObj cv \<and> map_of cv (str ''0'') = Some (JObj ck)
              \<and> finish_response P m True data
                  = Inr (JObj (AList.update (str ''choices'')
                                 (JObj (AList.update (str ''0'') choice' cv)) kvs))))"
proof -
  from primary_content_shape[OF pc] obtain kvs ch ck mk where
    d: "data = JObj kvs" "map_of kvs (str ''choices'') = Some ch"
     "opt_idx0 (Some ch) = Some (JObj ck)"
     "map_of ck (str ''message'') = Some (JObj mk)" "map_of mk (str ''content'') = Some (JStr text)"
    by blast
  define calls where "calls = JArr (map (\<lambda>c. JObj [(str ''id'', JStr (tc_id c)),
                                        (str ''type'', JStr (str ''function'')),
                                        (str ''function'',
                                           JObj [(str ''name'', JStr (tc_name c)),
                                                 (str ''arguments'', JStr (tc_arguments c))])])
                           (toolCalls r))"
  define nc where "nc = (if cleanContent r = [] then JNull else JStr (cleanContent r))"
  define message2 where "message2 = JObj (AList.update (str ''content'') nc
       (AList.update (str ''tool_calls'') calls mk))"
  define choice2 where "choice2 = JObj (AList.update (str ''finish_reason'') (JStr (str ''tool_calls''))
       (AList.update (str ''message'') message2 ck))"
  from p have "toolCalls r = number_calls P 0 (concat (map (seg_call P) (scan_segments m text)))"
    unfolding parse_by_segments[OF M] by auto
  then have cj: "JArr (map call_json (toolCalls r)) = calls"
    unfolding calls_def using number_calls_json by simp
  have f: "finish_response P m True data
      = Inr (JObj (AList.update (str ''choices'') (set_idx0 ch choice2) kvs))"
    using pc ne p tc d get_idx0_opt[OF d(3)] cj
    by (auto simp add: finish_response_def parse_value_def Let_def choice2_def message2_def nc_def)
  from opt_idx0_Some_objD[OF d(3)]
  have main: "(\<exists>others. ch = JArr (JObj ck # others)
              \<and> finish_response P m True data
                  = Inr (JObj (AList.update (str ''choices'') (JArr (choice2 # others)) kvs)))
         \<or> (\<exists>cv. ch = JObj cv \<and> map_of cv (str ''0'') = Some (JObj ck)
              \<and> finish_response P m True data
                  = Inr (JObj (AList.update (str ''choices'')
                                 (JObj (AList.update (str ''0'') choice2 cv)) kvs)))"
    using f by auto
  show ?thesis
    apply (rule exI[of _ kvs])
    apply (rule exI[of _ ch])
    apply (rule exI[of _ ck])
    apply (rule exI[of _ mk])
    using d(1,2,4,5) main unfolding Let_def choice2_def message2_def nc_def calls_def
    apply simp
    done
qed

text \<open>
  C5.  Where the primary message of the body carries text, the finisher runs \<open>parse\<close>
  over it.  If the request had tools, the text is not empty and \<open>parse\<close> found a call,
  the answer is the body it was given with three properties set and nothing else
  changed: in the message of the first choice \<open>tool_calls\<close> is the array of the calls,
  each an object with its \<open>id\<close>, the \<open>type\<close> \<open>function\<close> and a \<open>function\<close> of \<open>name\<close>
  and \<open>arguments\<close>, and \<open>content\<close> is the residual text, \<open>null\<close> when the residual text
  is empty; in the first choice \<open>finish_reason\<close> is \<open>tool_calls\<close>.  A property that was
  there keeps its place, a new one goes last; the other properties of the message, of
  the choice and of the body, and the other choices, are as they came.  In every other
  case, also when the request had no tools or the message has no content, the body is
  returned as it came.
\<close>

theorem finish_response_spec:
  assumes "TC_START m \<noteq> []"
  shows "(primary_content data = Some (JStr text) \<longrightarrow>
           (\<exists>r. parse P m text = Some r \<and>
              (if requestHasTools \<and> text \<noteq> [] \<and> toolCalls r \<noteq> []
               then (\<exists>kvs ch ck mk.
                  data = JObj kvs \<and> map_of kvs (str ''choices'') = Some ch
                \<and> map_of ck (str ''message'') = Some (JObj mk)
                \<and> map_of mk (str ''content'') = Some (JStr text)
                \<and> (let calls = JArr (map (\<lambda>c. JObj [(str ''id'', JStr (tc_id c)),
                                        (str ''type'', JStr (str ''function'')),
                                        (str ''function'',
                                           JObj [(str ''name'', JStr (tc_name c)),
                                                 (str ''arguments'', JStr (tc_arguments c))])])
                                       (toolCalls r));
                        residual = (if cleanContent r = [] then JNull else JStr (cleanContent r));
                        message' = JObj (AList.update (str ''content'') residual
                                          (AList.update (str ''tool_calls'') calls mk));
                        choice' = JObj (AList.update (str ''finish_reason'') (JStr (str ''tool_calls''))
                                          (AList.update (str ''message'') message' ck))
                    in (\<exists>others. ch = JArr (JObj ck # others)
                          \<and> finish_response P m requestHasTools data
                              = Inr (JObj (AList.update (str ''choices'') (JArr (choice' # others)) kvs)))
                     \<or> (\<exists>cv. ch = JObj cv \<and> map_of cv (str ''0'') = Some (JObj ck)
                          \<and> finish_response P m requestHasTools data
                              = Inr (JObj (AList.update (str ''choices'')
                                             (JObj (AList.update (str ''0'') choice' cv)) kvs)))))
               else finish_response P m requestHasTools data = Inr data)))
       \<and> (\<not> requestHasTools \<or> \<not> truthy_opt (primary_content data) \<longrightarrow>
             finish_response P m requestHasTools data = Inr data)"
proof (intro conjI impI)
  assume pc: "primary_content data = Some (JStr text)"
  from parse_by_segments[OF assms] obtain r where p: "parse P m text = Some r" by blast
  show "\<exists>r. parse P m text = Some r \<and>
              (if requestHasTools \<and> text \<noteq> [] \<and> toolCalls r \<noteq> []
               then (\<exists>kvs ch ck mk.
                  data = JObj kvs \<and> map_of kvs (str ''choices'') = Some ch
                \<and> map_of ck (str ''message'') = Some (JObj mk)
                \<and> map_of mk (str ''content'') = Some (JStr text)
                \<and> (let calls = JArr (map (\<lambda>c. JObj [(str ''id'', JStr (tc_id c)),
                                        (str ''type'', JStr (str ''function'')),
                                        (str ''function'',
                                           JObj [(str ''name'', JStr (tc_name c)),
                                                 (str ''arguments'', JStr (tc_arguments c))])])
                                       (toolCalls r));
                        residual = (if cleanContent r = [] then JNull else JStr (cleanContent r));
                        message' = JObj (AList.update (str ''content'') residual
                                          (AList.update (str ''tool_calls'') calls mk));
                        choice' = JObj (AList.update (str ''finish_reason'') (JStr (str ''tool_calls''))
                                          (AList.update (str ''message'') message' ck))
                    in (\<exists>others. ch = JArr (JObj ck # others)
                          \<and> finish_response P m requestHasTools data
                              = Inr (JObj (AList.update (str ''choices'') (JArr (choice' # others)) kvs)))
                     \<or> (\<exists>cv. ch = JObj cv \<and> map_of cv (str ''0'') = Some (JObj ck)
                          \<and> finish_response P m requestHasTools data
                              = Inr (JObj (AList.update (str ''choices'')
                                             (JObj (AList.update (str ''0'') choice' cv)) kvs)))))
               else finish_response P m requestHasTools data = Inr data)"
  proof (cases "requestHasTools \<and> text \<noteq> [] \<and> toolCalls r \<noteq> []")
    case True
    then have t: "requestHasTools = True" "text \<noteq> []" "toolCalls r \<noteq> []" by simp_all
    show ?thesis
      apply (rule exI[of _ r])
      unfolding t(1)
      using finish_response_exact[OF assms pc t(2) p t(3)] p t(2,3) apply simp
      done
  next
    case False
    then have "finish_response P m requestHasTools data = Inr data"
      using pc p by (auto simp: finish_response_def parse_value_def)
    with False p show ?thesis by auto
  qed
next
  assume "\<not> requestHasTools \<or> \<not> truthy_opt (primary_content data)"
  then show "finish_response P m requestHasTools data = Inr data"
    by (auto simp: finish_response_def)
qed

theorem finish_response_spec_witness:
  "TC_START example_markers \<noteq> []
   \<and> primary_content example_body = Some (JStr example_reply)
   \<and> parse example_platform example_markers example_reply
       = Some \<lparr>toolCalls = number_calls example_platform 0 [(str ''f'', str ''{}'')],
               cleanContent = str ''ok''\<rparr>
   \<and> finish_response example_platform example_markers True example_body
       = Inr (JObj [(str ''id'', JStr (str ''c1'')),
                    (str ''choices'',
                       JArr [JObj [(str ''index'', JNum (str ''0'')),
                                   (str ''message'',
                                      JObj [(str ''role'', JStr (str ''assistant'')),
                                            (str ''content'', JStr (str ''ok'')),
                                            (str ''tool_calls'',
                                               JArr [JObj [(str ''id'', JStr (str ''call_1700000000000_0'')),
                                                           (str ''type'', JStr (str ''function'')),
                                                           (str ''function'',
                                                              JObj [(str ''name'', JStr (str ''f'')),
                                                                    (str ''arguments'', JStr (str ''{}''))])]])]),
                                   (str ''finish_reason'', JStr (str ''tool_calls''))]])])
   \<and> finish_response example_platform example_markers False example_body = Inr example_body"
proof -
  have h: "TC_START example_markers \<noteq> []" by (simp add: example_markers_eq)
  have pc: "primary_content example_body = Some (JStr example_reply)"
    by (simp add: primary_content_def primary_message_def example_body_def str_def)
  have p: "parse example_platform example_markers example_reply
       = Some \<lparr>toolCalls = number_calls example_platform 0 [(str ''f'', str ''{}'')],
               cleanContent = str ''ok''\<rparr>"
    by (simp add: example_reply_def example_eval parse_def exec_loop.simps replace_all.simps)
  have ne: "example_reply \<noteq> []" by (simp add: example_reply_def str_def)
  note t = finish_response_spec[OF h, of example_body example_reply example_platform]
  from t[of True] pc p ne
  have a: "finish_response example_platform example_markers True example_body
       = Inr (JObj [(str ''id'', JStr (str ''c1'')),
                    (str ''choices'',
                       JArr [JObj [(str ''index'', JNum (str ''0'')),
                                   (str ''message'',
                                      JObj [(str ''role'', JStr (str ''assistant'')),
                                            (str ''content'', JStr (str ''ok'')),
                                            (str ''tool_calls'',
                                               JArr [JObj [(str ''id'', JStr (str ''call_1700000000000_0'')),
                                                           (str ''type'', JStr (str ''function'')),
                                                           (str ''function'',
                                                              JObj [(str ''name'', JStr (str ''f'')),
                                                                    (str ''arguments'', JStr (str ''{}''))])]])]),
                                   (str ''finish_reason'', JStr (str ''tool_calls''))]])])"
    by (auto simp: example_body_def Let_def str_def show_nat.simps example_platform_def)
  from t[of False]
  have b: "finish_response example_platform example_markers False example_body = Inr example_body"
    by simp
  from h pc p a b show ?thesis by blast
qed

section \<open>Properties of the streaming transcoder\<close>

lemma and_then_assoc:
  "and_then (and_then r k) k' = and_then r (\<lambda>x. and_then (k x) k')"
  by (auto simp: and_then_def split: prod.splits sum.splits)

lemma and_then_unit_left [simp]: "and_then ([], Inr s) k = k s"
  by (simp add: and_then_def split: prod.splits)

lemma and_then_unit_right [simp]: "and_then r (\<lambda>s. ([], Inr s)) = r"
  by (auto simp: and_then_def split: prod.splits sum.splits)

lemma and_then_cong_result:
  assumes "\<And>outs s. r = (outs, Inr s) \<Longrightarrow> k s = k' s"
  shows "and_then r k = and_then r k'"
  using assms by (auto simp: and_then_def split: prod.splits sum.splits)

lemma process_events_append:
  "process_events P m st (a @ b) = and_then (process_events P m st a) (\<lambda>s. process_events P m s b)"
  by (induction a arbitrary: st) (simp_all add: and_then_assoc)

lemma prefix_append_short:
  "prefix p (xs @ b) \<Longrightarrow> length p \<le> length xs \<Longrightarrow> prefix p xs"
  by (auto simp: prefix_append)

lemma indexOf_append_Some:
  "indexOf a p = Some i \<Longrightarrow> indexOf (a @ b) p = Some i"
proof (induction a arbitrary: i)
  case Nil
  then show ?case by (cases b) (auto split: if_splits)
next
  case (Cons c cs)
  show ?case
  proof (cases "prefix p (c # cs)")
    case True
    then have "prefix p ((c # cs) @ b)" using prefix_prefix by blast
    with True Cons.prems show ?thesis by simp
  next
    case False
    with Cons.prems obtain j where j: "indexOf cs p = Some j" "i = Suc j" by auto
    from indexOf_bound[OF j(1)] have "length p \<le> length (c # cs)" by simp
    with False have "\<not> prefix p ((c # cs) @ b)" using prefix_append_short by blast
    with Cons.IH[OF j(1)] j show ?thesis by simp
  qed
qed

lemma pushText_loop_append:
  "pushText_loop (a @ b) =
     (case pushText_loop a of (ev1, r1) \<Rightarrow>
        (case pushText_loop (r1 @ b) of (ev2, r2) \<Rightarrow> (ev1 @ ev2, r2)))"
proof (induction a rule: pushText_loop.induct)
  case (1 buf)
  show ?case
  proof (cases "indexOf buf [10, 10]")
    case None
    then have "pushText_loop buf = ([], buf)" by (simp add: pushText_loop.simps)
    then show ?thesis by (simp split: prod.splits)
  next
    case (Some idx)
    from indexOf_bound[OF Some] have le: "idx + 2 \<le> length buf" by simp
    have ab: "indexOf (buf @ b) [10, 10] = Some idx" by (rule indexOf_append_Some[OF Some])
    have d: "drop (idx + 2) (buf @ b) = drop (idx + 2) buf @ b" using le by simp
    have t: "take idx (buf @ b) = take idx buf" using le by simp
    obtain ev1 r1 where p1: "pushText_loop (drop (idx + 2) buf) = (ev1, r1)" by fastforce
    obtain ev2 r2 where p2: "pushText_loop (r1 @ b) = (ev2, r2)" by fastforce
    from "1.IH"[OF Some] p1 p2
    have ih: "pushText_loop (drop (idx + 2) buf @ b) = (ev1 @ ev2, r2)" by simp
    have l: "pushText_loop (buf @ b) = (take idx buf # ev1 @ ev2, r2)"
      using ab d t ih by (simp add: pushText_loop.simps[of "buf @ b"])
    have r: "pushText_loop buf = (take idx buf # ev1, r1)"
      using Some p1 by (simp add: pushText_loop.simps[of buf])
    show ?thesis unfolding l r using p2 by simp
  qed
qed

lemma pushText_loop_rest:
  "pushText_loop a = (ev, r) \<Longrightarrow> indexOf r [10, 10] = None"
proof (induction a arbitrary: ev r rule: pushText_loop.induct)
  case (1 buf)
  show ?case
  proof (cases "indexOf buf [10, 10]")
    case None
    with "1.prems" show ?thesis by (simp add: pushText_loop.simps[of buf])
  next
    case (Some idx)
    obtain ev1 r1 where p1: "pushText_loop (drop (idx + 2) buf) = (ev1, r1)" by fastforce
    with "1.prems" Some have "r = r1" by (simp add: pushText_loop.simps[of buf])
    with "1.IH"[OF Some p1] show ?thesis by simp
  qed
qed

lemma pushText_loop_idle:
  "indexOf a [10, 10] = None \<Longrightarrow> pushText_loop a = ([], a)"
  by (simp add: pushText_loop.simps)

lemma transform_transform:
  "and_then (transform P m ts c) (\<lambda>ts'. transform P m ts' d) = transform P m ts (c @ d)"
proof -
  obtain ev1 r1 where p1: "pushText_loop (buffer ts @ c) = (ev1, r1)" by fastforce
  obtain ev2 r2 where p2: "pushText_loop (r1 @ d) = (ev2, r2)" by fastforce
  have p12: "pushText_loop (buffer ts @ c @ d) = (ev1 @ ev2, r2)"
    using pushText_loop_append[of "buffer ts @ c" d] p1 p2 by simp
  have "and_then (transform P m ts c) (\<lambda>ts'. transform P m ts' d)
      = and_then (process_events P m (vars ts) ev1)
          (\<lambda>v. and_then (process_events P m v ev2) (\<lambda>v'. ([], Inr \<lparr>buffer = r2, vars = v'\<rparr>)))"
    by (simp add: transform_def pushText_def p1 p2 and_then_assoc)
  also have "\<dots> = transform P m ts (c @ d)"
    by (simp add: transform_def pushText_def p12 process_events_append and_then_assoc)
  finally show ?thesis .
qed

lemma transform_buffer:
  "transform P m ts c = (outs, Inr ts') \<Longrightarrow> indexOf (buffer ts') [10, 10] = None"
proof -
  assume a: "transform P m ts c = (outs, Inr ts')"
  obtain ev1 r1 where p1: "pushText_loop (buffer ts @ c) = (ev1, r1)" by fastforce
  from a p1 have "buffer ts' = r1"
    by (auto simp: transform_def pushText_def and_then_def split: prod.splits sum.splits)
  with pushText_loop_rest[OF p1] show ?thesis by simp
qed

lemma run_chunks_concat:
  "indexOf (buffer ts) [10, 10] = None \<Longrightarrow> run_chunks P m ts cs = transform P m ts (concat cs)"
proof (induction cs arbitrary: ts)
  case Nil
  then show ?case by (simp add: transform_def pushText_def pushText_loop_idle)
next
  case (Cons c cs)
  have "run_chunks P m ts (c # cs) = and_then (transform P m ts c) (\<lambda>ts'. run_chunks P m ts' cs)"
    by simp
  also have "\<dots> = and_then (transform P m ts c) (\<lambda>ts'. transform P m ts' (concat cs))"
    by (rule and_then_cong_result) (use Cons.IH transform_buffer in blast)
  also have "\<dots> = transform P m ts (concat (c # cs))"
    by (simp add: transform_transform)
  finally show ?case .
qed

lemma run_stream_concat:
  "run_stream P m cs =
     and_then (transform P m initial_state (concat cs))
       (\<lambda>ts. and_then (flush P m (vars ts)) (\<lambda>v. ([], Inr (ts\<lparr>vars := v\<rparr>))))"
proof -
  have "indexOf (buffer initial_state) [10, 10] = None" by (simp add: initial_state_def)
  from run_chunks_concat[OF this] show ?thesis by (simp add: run_stream_def)
qed

lemmas stream_eval =
  content_frame_def inline_block_def transform_def pushText_def pushText_loop.simps
  handle_event_def handle_content_def envelope_content_def handle_done_def flush_def isDoneEvent_def extractDataLines_def parseJsonFromEvent_def
  trimStart_def splitByMarker_def findPartialMatchEndIndex_def emit_text_def push_or_throw_def
  patch_content_def patch_content_guarded_def delete_content_def and_then_def
  parse_def exec_loop.simps replace_all.simps initial_state_def run_stream_def
  or_empty_object_def fresh_choice_def Let_def show_nat.simps suffix_def

text \<open>
  C1.  The outcome of a whole response depends only on the text of the stream, not on
  how it is cut into chunks: two lists of chunks with the same concatenation give the
  same pushed events in the same order, and the same final state or failure.  This
  holds for every stream and every cut, a cut inside a marker token included.
\<close>

theorem run_stream_chunking:
  assumes "concat chunks = concat chunks'"
  shows "run_stream P m chunks = run_stream P m chunks'"
  using assms by (simp add: run_stream_concat)

theorem run_stream_chunking_witness:
  "concat split_stream = concat whole_stream
   \<and> run_stream example_platform example_markers split_stream
       = run_stream example_platform example_markers whole_stream
   \<and> fst (run_stream example_platform example_markers split_stream)
       = [PushJson (envelope (str ''Hi '')),
          PushJson (JObj [(str ''choices'', JArr [JObj [(str ''delta'', JObj [])]])]),
          PushJson example_tool_event,
          PushDone,
          PushJson example_tool_event]"
proof -
  have c: "concat split_stream = concat whole_stream"
    by (simp add: split_stream_def whole_stream_def content_frame_def inline_block_def
        example_markers_eq)
  have e: "run_stream example_platform example_markers split_stream
       = run_stream example_platform example_markers whole_stream"
    by (rule run_stream_chunking[OF c])
  have w: "fst (run_stream example_platform example_markers whole_stream)
       = [PushJson (envelope (str ''Hi '')),
          PushJson (JObj [(str ''choices'', JArr [JObj [(str ''delta'', JObj [])]])]),
          PushJson example_tool_event,
          PushDone,
          PushJson example_tool_event]"
    by (simp add: whole_stream_def example_tool_event_def stream_eval example_eval)
  from c e w show ?thesis by simp
qed

lemma process_events_undecoded:
  assumes "lastEnvelope st = None" "TC_START m \<noteq> []"
    and "list_all (\<lambda>e. isDoneEvent e \<or> is_raw P e) events"
  shows "process_events P m st events =
           (map (\<lambda>e. if isDoneEvent e then PushDone else PushRaw e) events, Inr st)"
  using assms(3)
proof (induction events)
  case Nil
  then show ?case by simp
next
  case (Cons e es)
  from assms(1,2) have d: "handle_done P m st = ([PushDone], Inr st)"
    by (simp add: handle_done_def parse_by_segments)
  from Cons.prems have "isDoneEvent e \<or> is_raw P e" by simp
  then have "handle_event P m st e = ([if isDoneEvent e then PushDone else PushRaw e], Inr st)"
    using d by (auto simp: handle_event_def is_raw_def Let_def)
  with Cons show ?case by (simp add: and_then_def)
qed

text \<open>
  C10.  While no frame has been decoded as an envelope, the sentinel is answered with
  the sentinel alone and the end of the stream with nothing, whatever the pending tail
  and the tool buffer hold; and a run of frames of which none decodes as an envelope
  pushes only the raw frames and the sentinels, and leaves the variables as they were.
\<close>

theorem no_envelope_no_synthesis:
  assumes "lastEnvelope st = None" "TC_START m \<noteq> []"
  shows "handle_done P m st = ([PushDone], Inr st)
       \<and> flush P m st = ([], Inr st)
       \<and> (isDoneEvent e \<longrightarrow> handle_event P m st e = ([PushDone], Inr st))
       \<and> (list_all (\<lambda>e. isDoneEvent e \<or> is_raw P e) events \<longrightarrow>
            process_events P m st events =
              (map (\<lambda>e. if isDoneEvent e then PushDone else PushRaw e) events, Inr st))"
proof -
  have d: "handle_done P m st = ([PushDone], Inr st)"
    using assms by (simp add: handle_done_def parse_by_segments)
  have f: "flush P m st = ([], Inr st)"
    using assms by (simp add: flush_def)
  from d f process_events_undecoded[OF assms] show ?thesis
    by (simp add: handle_event_def)
qed

theorem no_envelope_no_synthesis_witness:
  "TC_START example_markers \<noteq> []
   \<and> handle_done example_platform example_markers
        \<lparr>pendingText = str ''x'', bufferingTool = True, toolBuffer = inline_block, lastEnvelope = None\<rparr>
       = ([PushDone],
          Inr \<lparr>pendingText = str ''x'', bufferingTool = True, toolBuffer = inline_block, lastEnvelope = None\<rparr>)
   \<and> flush example_platform example_markers
        \<lparr>pendingText = str ''x'', bufferingTool = True, toolBuffer = inline_block, lastEnvelope = None\<rparr>
       = ([],
          Inr \<lparr>pendingText = str ''x'', bufferingTool = True, toolBuffer = inline_block, lastEnvelope = None\<rparr>)
   \<and> list_all (\<lambda>e. isDoneEvent e \<or> is_raw example_platform e) undecoded_events
   \<and> process_events example_platform example_markers (vars initial_state) undecoded_events
       = ([PushRaw (str ''data: oops''), PushRaw (str '': keep-alive''), PushDone],
          Inr (vars initial_state))"
proof -
  let ?st = "\<lparr>pendingText = str ''x'', bufferingTool = True, toolBuffer = inline_block,
              lastEnvelope = None\<rparr>"
  have h: "TC_START example_markers \<noteq> []" by (simp add: example_markers_eq)
  have l: "lastEnvelope ?st = None" by simp
  have u: "list_all (\<lambda>e. isDoneEvent e \<or> is_raw example_platform e) undecoded_events"
    by (simp add: undecoded_events_def is_raw_def isDoneEvent_def extractDataLines_def
        parseJsonFromEvent_def trimStart_def Let_def example_eval suffix_def)
  have d: "map (\<lambda>e. if isDoneEvent e then PushDone else PushRaw e) undecoded_events
       = [PushRaw (str ''data: oops''), PushRaw (str '': keep-alive''), PushDone]"
    by (simp add: undecoded_events_def isDoneEvent_def extractDataLines_def trimStart_def Let_def
        example_eval)
  have i: "lastEnvelope (vars initial_state) = None" by (simp add: initial_state_def)
  from no_envelope_no_synthesis[OF l h, of example_platform "[]" "[]"]
       no_envelope_no_synthesis[OF i h, of example_platform "[]" undecoded_events] u d h
  show ?thesis by simp
qed

lemma envelope_content_SomeD:
  assumes "envelope_content parsed = Some c"
  shows "c \<noteq> [] \<and> (\<exists>c0 others. get_prop parsed (str ''choices'') = Some (JArr (c0 # others))
        \<and> opt_prop (opt_prop (Some c0) (str ''delta'')) (str ''content'') = Some (JStr c))"
proof (cases "get_prop parsed (str ''choices'')")
  case None
  with assms show ?thesis by (simp add: envelope_content_def)
next
  case (Some ch)
  show ?thesis
  proof (cases ch)
    case (JArr xs)
    show ?thesis
    proof (cases xs)
      case Nil
      with assms Some JArr show ?thesis by (simp add: envelope_content_def)
    next
      case (Cons c0 others)
      show ?thesis
      proof (cases "opt_prop (opt_prop (Some c0) (str ''delta'')) (str ''content'')")
        case None
        with assms Some JArr Cons show ?thesis by (simp add: envelope_content_def)
      next
        case co: (Some v)
        show ?thesis
        proof (cases v)
          case (JStr s)
          with assms Some JArr Cons co show ?thesis
            by (simp add: envelope_content_def split: if_splits)
        qed (use assms Some JArr Cons co in \<open>simp_all add: envelope_content_def\<close>)
      qed
    qed
  qed (use assms Some in \<open>simp_all add: envelope_content_def\<close>)
qed

lemma content_envelope_shape:
  assumes "envelope_content parsed = Some c"
  obtains kvs ck others dk where "parsed = JObj kvs"
    "map_of kvs (str ''choices'') = Some (JArr (JObj ck # others))"
    "map_of ck (str ''delta'') = Some (JObj dk)" "map_of dk (str ''content'') = Some (JStr c)"
proof -
  from envelope_content_SomeD[OF assms] obtain c0 others where
    ch: "get_prop parsed (str ''choices'') = Some (JArr (c0 # others))"
    and co: "opt_prop (opt_prop (Some c0) (str ''delta'')) (str ''content'') = Some (JStr c)"
    by blast
  from opt_prop_SomeD[OF co] obtain dk where d: "opt_prop (Some c0) (str ''delta'') = Some (JObj dk)"
    and c: "map_of dk (str ''content'') = Some (JStr c)" by blast
  from opt_prop_SomeD[OF d] obtain ck where c0: "c0 = JObj ck" and dd: "map_of ck (str ''delta'') = Some (JObj dk)"
    by blast
  from ch obtain kvs where "parsed = JObj kvs" "map_of kvs (str ''choices'') = Some (JArr (c0 # others))"
    by (cases parsed) auto
  with c0 dd c that show ?thesis by blast
qed

lemma patch_content_envelope:
  assumes "envelope_content parsed = Some c"
  shows "\<exists>evt. patch_content parsed t = Inr evt \<and> push_content (PushJson evt) = t"
proof -
  from content_envelope_shape[OF assms] obtain kvs ck others dk where s: "parsed = JObj kvs"
    "map_of kvs (str ''choices'') = Some (JArr (JObj ck # others))"
    "map_of ck (str ''delta'') = Some (JObj dk)" "map_of dk (str ''content'') = Some (JStr c)"
    by blast
  show ?thesis
    using s by (simp add: patch_content_def or_empty_object_def push_content_def first_delta_def update_conv')
qed

lemma delete_content_envelope:
  assumes "envelope_content parsed = Some c"
  shows "push_content (PushJson (delete_content parsed)) = []"
proof -
  from content_envelope_shape[OF assms] obtain kvs ck others dk where s: "parsed = JObj kvs"
    "map_of kvs (str ''choices'') = Some (JArr (JObj ck # others))"
    "map_of ck (str ''delta'') = Some (JObj dk)" "map_of dk (str ''content'') = Some (JStr c)"
    by blast
  show ?thesis
    using s by (simp add: delete_content_def push_content_def first_delta_def update_conv' delete_conv')
qed

lemma emit_text_envelope:
  assumes "envelope_content parsed = Some c"
  shows "\<exists>evt. emit_text parsed t = Inr evt \<and> push_content (PushJson evt) = t"
  using patch_content_envelope[OF assms, of t] delete_content_envelope[OF assms]
  by (auto simp: emit_text_def)

lemma indexOf_None_iff: "indexOf s p = None \<longleftrightarrow> \<not> sublist p s"
proof (induction s)
  case Nil
  then show ?case by simp
next
  case (Cons c cs)
  have "indexOf (c # cs) p = None \<longleftrightarrow> \<not> prefix p (c # cs) \<and> indexOf cs p = None"
    by simp
  also have "\<dots> \<longleftrightarrow> \<not> prefix p (c # cs) \<and> \<not> sublist p cs" using Cons.IH by simp
  also have "\<dots> \<longleftrightarrow> \<not> sublist p (c # cs)" by (simp add: sublist_Cons_right)
  finally show ?case .
qed

lemma sublist_take: "sublist p (take n s) \<Longrightarrow> sublist p s"
proof -
  assume a: "sublist p (take n s)"
  have "sublist (take n s) s" by (rule prefix_imp_sublist) (rule take_is_prefix)
  with a show ?thesis by (rule sublist_order.order.trans)
qed


lemma indexOf_first:
  assumes "indexOf s p = Some i" "p \<noteq> []"
  shows "\<not> sublist p (take (i + length p - 1) s)"
  using assms(1)
proof (induction s arbitrary: i)
  case Nil
  with assms(2) show ?case by simp
next
  case (Cons c cs)
  from assms(2) have lp: "0 < length p" by simp
  show ?case
  proof (cases "prefix p (c # cs)")
    case True
    with Cons.prems have "i = 0" by simp
    have "length (take (i + length p - 1) (c # cs)) \<le> i + length p - 1" by simp
    moreover have "i + length p - 1 < length p" using \<open>i = 0\<close> lp by linarith
    ultimately have "length (take (i + length p - 1) (c # cs)) < length p" by linarith
    moreover have "sublist p (take (i + length p - 1) (c # cs))
        \<Longrightarrow> length p \<le> length (take (i + length p - 1) (c # cs))"
      by (rule sublist_length_le)
    ultimately show ?thesis by linarith
  next
    case False
    with Cons.prems obtain j where j: "indexOf cs p = Some j" "i = Suc j" by auto
    from lp j(2) have "i + length p - 1 = Suc (j + length p - 1)" by simp
    then have e: "take (i + length p - 1) (c # cs) = c # take (j + length p - 1) cs" by simp
    have "\<not> prefix p (c # take (j + length p - 1) cs)"
    proof
      assume "prefix p (c # take (j + length p - 1) cs)"
      moreover have "prefix (c # take (j + length p - 1) cs) (c # cs)" by (simp add: take_is_prefix)
      ultimately have "prefix p (c # cs)" by (rule prefix_order.trans)
      with False show False by simp
    qed
    with Cons.IH[OF j(1)] show ?thesis unfolding e by (simp add: sublist_Cons_right)
  qed
qed

lemma indexOf_Some_split:
  "indexOf s p = Some i \<Longrightarrow> prefix p (drop i s) \<and> i \<le> length s"
proof (induction s arbitrary: i)
  case Nil
  then show ?case by (simp split: if_splits)
next
  case (Cons c cs)
  show ?case
  proof (cases "prefix p (c # cs)")
    case True
    with Cons.prems show ?thesis by simp
  next
    case False
    with Cons.prems obtain j where j: "indexOf cs p = Some j" "i = Suc j" by auto
    with Cons.IH[OF j(1)] show ?thesis by simp
  qed
qed

lemma envelope_content_None:
  assumes "envelope_content parsed = None"
  shows "push_content (PushJson parsed) = []"
proof (cases "get_prop parsed (str ''choices'')")
  case None
  then show ?thesis by (simp add: push_content_def first_delta_def)
next
  case (Some ch)
  show ?thesis
  proof (cases ch)
    case (JArr xs)
    show ?thesis
    proof (cases xs)
      case Nil
      with Some JArr show ?thesis by (simp add: push_content_def first_delta_def)
    next
      case (Cons c0 others)
      show ?thesis
      proof (cases "opt_prop (opt_prop (Some c0) (str ''delta'')) (str ''content'')")
        case None
        with Some JArr Cons show ?thesis by (simp add: push_content_def first_delta_def)
      next
        case co: (Some v)
        show ?thesis
        proof (cases v)
          case (JStr s)
          with assms Some JArr Cons co show ?thesis
            by (simp add: envelope_content_def push_content_def first_delta_def split: if_splits)
        qed (use Some JArr Cons co in \<open>simp_all add: push_content_def first_delta_def\<close>)
      qed
    qed
  qed (use Some in \<open>simp_all add: push_content_def first_delta_def\<close>)
qed

lemma partial_loop_spec:
  "n < length M \<Longrightarrow>
     \<exists>k \<le> n. partial_loop text M n = length text - k \<and> k \<le> length text
        \<and> suffix (take k M) text \<and> (\<forall>i. k < i \<and> i \<le> n \<longrightarrow> \<not> suffix (take i M) text)"
proof (induction n)
  case 0
  then show ?case by simp
next
  case (Suc n)
  show ?case
  proof (cases "suffix (take (Suc n) M) text")
    case True
    from Suc.prems have "length (take (Suc n) M) = Suc n" by simp
    with suffix_length_le[OF True] have le: "Suc n \<le> length text" by simp
    have "partial_loop text M (Suc n) = length text - Suc n" using True by simp
    with True le show ?thesis by auto
  next
    case False
    from Suc.prems have "n < length M" by simp
    from Suc.IH[OF this] obtain k where k: "k \<le> n" "partial_loop text M n = length text - k"
      "k \<le> length text" "suffix (take k M) text"
      "\<forall>i. k < i \<and> i \<le> n \<longrightarrow> \<not> suffix (take i M) text" by blast
    have "partial_loop text M (Suc n) = length text - k" using False k(2) by simp
    moreover have "\<forall>i. k < i \<and> i \<le> Suc n \<longrightarrow> \<not> suffix (take i M) text"
      using k(5) False by (metis le_Suc_eq)
    ultimately show ?thesis using k(1,3,4) by (intro exI[of _ k]) auto
  qed
qed

lemma held_spec:
  assumes "M \<noteq> []"
  shows "\<exists>E. text = E @ held text M \<and> length E = findPartialMatchEndIndex text M"
    and "prefix (held text M) M"
    and "length (held text M) < length M"
    and "\<And>S. suffix S text \<Longrightarrow> prefix S M \<Longrightarrow> length S < length M \<Longrightarrow> length S \<le> length (held text M)"
proof -
  from assms have n: "length M - 1 < length M" by (cases M) auto
  from partial_loop_spec[OF n, of "text"] obtain k where k: "k \<le> length M - 1"
    "findPartialMatchEndIndex text M = length text - k" "k \<le> length text"
    "suffix (take k M) text" "\<forall>i. k < i \<and> i \<le> length M - 1 \<longrightarrow> \<not> suffix (take i M) text"
    unfolding findPartialMatchEndIndex_def by blast
  from k(4) obtain E where E: "text = E @ take k M" by (auto simp: suffix_def)
  from k(1) n have lk: "length (take k M) = k" by simp
  with E have le: "length E = length text - k" by (metis add_diff_cancel_right' length_append)
  have h: "held text M = take k M" unfolding held_def k(2) using E le by (metis append_eq_conv_conj)
  show "\<exists>E. text = E @ held text M \<and> length E = findPartialMatchEndIndex text M"
    using E le h k(2) by auto
  show "prefix (held text M) M" unfolding h by (rule take_is_prefix)
  show "length (held text M) < length M" unfolding h using lk k(1) n by simp
  fix S assume S: "suffix S text" "prefix S M" "length S < length M"
  show "length S \<le> length (held text M)"
  proof (rule ccontr)
    assume a: "\<not> length S \<le> length (held text M)"
    have "length (held text M) = k" unfolding h by (rule lk)
    with a have "k < length S" by linarith
    moreover from S(3) have "length S \<le> length M - 1" by linarith
    moreover from S(2) have "S = take (length S) M" by (metis append_eq_conv_conj prefix_def)
    ultimately show False using k(5) S(1) by metis
  qed
qed

lemma indexOf_SomeI:
  "prefix M (drop i s) \<Longrightarrow> i \<le> length s \<Longrightarrow> (\<And>j. j < i \<Longrightarrow> \<not> prefix M (drop j s))
     \<Longrightarrow> indexOf s M = Some i"
proof (induction s arbitrary: i)
  case Nil
  then show ?case by simp
next
  case (Cons c cs)
  show ?case
  proof (cases i)
    case 0
    with Cons.prems(1) show ?thesis by simp
  next
    case (Suc j)
    from Cons.prems(3)[of 0] Suc have np: "\<not> prefix M (c # cs)" by simp
    have "indexOf cs M = Some j"
    proof (rule Cons.IH)
      show "prefix M (drop j cs)" using Cons.prems(1) Suc by simp
      show "j \<le> length cs" using Cons.prems(2) Suc by simp
      fix l assume "l < j"
      then have "Suc l < i" using Suc by simp
      from Cons.prems(3)[OF this] show "\<not> prefix M (drop l cs)" by simp
    qed
    with np Suc show ?thesis by simp
  qed
qed

lemma indexOf_Some_least:
  "indexOf s M = Some i \<Longrightarrow> j < i \<Longrightarrow> \<not> prefix M (drop j s)"
proof (induction s arbitrary: i j)
  case Nil
  then show ?case by (simp split: if_splits)
next
  case (Cons c cs)
  show ?case
  proof (cases "prefix M (c # cs)")
    case True
    with Cons.prems show ?thesis by simp
  next
    case False
    with Cons.prems obtain i' where i': "indexOf cs M = Some i'" "i = Suc i'" by auto
    show ?thesis
    proof (cases j)
      case 0
      with False show ?thesis by simp
    next
      case (Suc j')
      with Cons.prems(2) i'(2) have "j' < i'" by simp
      from Cons.IH[OF i'(1) this] Suc show ?thesis by simp
    qed
  qed
qed

lemma indexOf_None_no_prefix:
  "indexOf s M = None \<Longrightarrow> \<not> prefix M (drop j s)"
proof (induction s arbitrary: j)
  case Nil
  then show ?case by (simp split: if_splits)
next
  case (Cons c cs)
  then have np: "\<not> prefix M (c # cs)" and n: "indexOf cs M = None" by (auto split: if_splits)
  show ?case
  proof (cases j)
    case 0
    with np show ?thesis by simp
  next
    case (Suc j')
    with Cons.IH[OF n] show ?thesis by simp
  qed
qed

lemma indexOf_NoneI:
  "(\<And>j. j \<le> length s \<Longrightarrow> \<not> prefix M (drop j s)) \<Longrightarrow> indexOf s M = None"
proof (induction s)
  case Nil
  from Nil[of 0] show ?case by simp
next
  case (Cons c cs)
  from Cons.prems[of 0] have np: "\<not> prefix M (c # cs)" by simp
  have "indexOf cs M = None"
  proof (rule Cons.IH)
    fix j assume "j \<le> length cs"
    then have "Suc j \<le> length (c # cs)" by simp
    from Cons.prems[OF this] show "\<not> prefix M (drop j cs)" by simp
  qed
  with np show ?case by simp
qed

lemma held_append_suffix:
  assumes "M \<noteq> []" "suffix S (T0 @ c)" "prefix S M" "length S < length M"
  shows "suffix S (held T0 M @ c)"
proof (cases "length S \<le> length (held T0 M @ c)")
  case True
  from held_spec(1)[OF assms(1), of T0] obtain E where E: "T0 = E @ held T0 M" by blast
  then have "T0 @ c = E @ (held T0 M @ c)" by simp
  then have "suffix (held T0 M @ c) (T0 @ c)" by (metis suffixI)
  from suffix_length_suffix[OF assms(2) this True] show ?thesis .
next
  case False
  then have l: "length (held T0 M) + length c < length S" by simp
  have "suffix c (T0 @ c)" by (simp add: suffixI)
  from suffix_length_suffix[OF this assms(2)] l have "suffix c S" by simp
  then obtain S' where S': "S = S' @ c" by (auto simp: suffix_def)
  with assms(2) have s: "suffix S' T0" by simp
  from S' assms(3) have p: "prefix S' M" using append_prefixD by blast
  from S' assms(4) have "length S' < length M" by simp
  from held_spec(4)[OF assms(1) s p this] S' l show ?thesis by simp
qed

lemma no_early_occurrence:
  assumes "M \<noteq> []" "indexOf T0 M = None" "j < findPartialMatchEndIndex T0 M"
  shows "\<not> prefix M (drop j (T0 @ c))"
proof
  assume a: "prefix M (drop j (T0 @ c))"
  from held_spec(1)[OF assms(1), of T0] obtain E where E: "T0 = E @ held T0 M"
    "length E = findPartialMatchEndIndex T0 M" by blast
  from E assms(3) have jl: "j < length T0" by (metis length_append trans_less_add1)
  let ?S = "drop j T0"
  from jl have d: "drop j (T0 @ c) = ?S @ c" by simp
  have lS: "length (held T0 M) < length ?S"
  proof -
    have "length T0 = length E + length (held T0 M)" using E(1) by (metis length_append)
    with E(2) assms(3) show ?thesis by simp
  qed
  show False
  proof (cases "length M \<le> length ?S")
    case True
    from a d have "prefix M (?S @ c)" by simp
    from prefix_append_short[OF this True] indexOf_None_no_prefix[OF assms(2)] show False by blast
  next
    case False
    then have lt: "length ?S < length M" by simp
    from a d have "prefix M (?S @ c)" by simp
    moreover have "prefix ?S (?S @ c)" by simp
    ultimately have p: "prefix ?S M" using lt by (meson less_imp_le_nat prefix_length_prefix)
    have s: "suffix ?S T0" by (rule suffix_drop)
    from held_spec(4)[OF assms(1) s p lt] lS show False by simp
  qed
qed

lemma scan_step_none:
  assumes "M \<noteq> []" "indexOf T0 M = None" "indexOf (held T0 M @ c) M = None"
  shows "indexOf (T0 @ c) M = None"
    and "held (T0 @ c) M = held (held T0 M @ c) M"
    and "take (findPartialMatchEndIndex (T0 @ c) M) (T0 @ c)
          = take (findPartialMatchEndIndex T0 M) T0
            @ take (findPartialMatchEndIndex (held T0 M @ c) M) (held T0 M @ c)"
proof -
  let ?P = "held T0 M" and ?comb = "held T0 M @ c"
  from held_spec(1)[OF assms(1), of T0] obtain E0 where E0: "T0 = E0 @ ?P"
    "length E0 = findPartialMatchEndIndex T0 M" by blast
  have T1: "T0 @ c = E0 @ ?comb" using E0(1) by simp
  show "indexOf (T0 @ c) M = None"
  proof (rule indexOf_NoneI)
    fix j assume "j \<le> length (T0 @ c)"
    show "\<not> prefix M (drop j (T0 @ c))"
    proof (cases "j < length E0")
      case True
      then show ?thesis using no_early_occurrence[OF assms(1,2)] E0(2) by simp
    next
      case False
      define comb where "comb = held T0 M @ c"
      have "T0 @ c = E0 @ comb" using T1 comb_def by simp
      then have dj: "drop j (T0 @ c) = drop (j - length E0) comb" using False by simp
      have "indexOf comb M = None" using assms(3) comb_def by simp
      from indexOf_None_no_prefix[OF this] show ?thesis unfolding dj .
    qed
  qed
  let ?h1 = "held (T0 @ c) M" and ?h2 = "held ?comb M"
  from held_spec(1)[OF assms(1), of "T0 @ c"] obtain E1 where E1: "T0 @ c = E1 @ ?h1"
    "length E1 = findPartialMatchEndIndex (T0 @ c) M" by blast
  from held_spec(1)[OF assms(1), of ?comb] obtain E2 where E2: "?comb = E2 @ ?h2"
    "length E2 = findPartialMatchEndIndex ?comb M" by blast
  have s1: "suffix ?h1 (T0 @ c)" using E1(1) by (metis suffixI)
  have s2c: "suffix ?h2 ?comb" using E2(1) by (metis suffixI)
  have s2: "suffix ?h2 (T0 @ c)" unfolding T1 using s2c by (simp add: suffix_appendI)
  have "suffix ?h1 ?comb"
    by (rule held_append_suffix[OF assms(1) s1 held_spec(2)[OF assms(1)] held_spec(3)[OF assms(1)]])
  from held_spec(4)[OF assms(1) this held_spec(2)[OF assms(1)] held_spec(3)[OF assms(1)]]
  have l1: "length ?h1 \<le> length ?h2" .
  from held_spec(4)[OF assms(1) s2 held_spec(2)[OF assms(1)] held_spec(3)[OF assms(1)]]
  have l2: "length ?h2 \<le> length ?h1" .
  from suffix_length_suffix[OF s1 s2 l1] suffix_length_suffix[OF s2 s1 l2]
  show h: "?h1 = ?h2" by (rule suffix_order.antisym)
  have "E1 @ ?h1 = (E0 @ E2) @ ?h2" by (metis E1(1) T1 E2(1) append.assoc)
  with h have "E1 = E0 @ E2" by simp
  moreover have "take (findPartialMatchEndIndex (T0 @ c) M) (T0 @ c) = E1"
    using E1 by (metis append_eq_conv_conj)
  moreover have "take (findPartialMatchEndIndex T0 M) T0 = E0"
    using E0 by (metis append_eq_conv_conj)
  moreover have "take (findPartialMatchEndIndex ?comb M) ?comb = E2"
    using E2 by (metis append_eq_conv_conj)
  ultimately show "take (findPartialMatchEndIndex (T0 @ c) M) (T0 @ c)
          = take (findPartialMatchEndIndex T0 M) T0
            @ take (findPartialMatchEndIndex ?comb M) ?comb" by simp
qed

lemma scan_step_some:
  assumes "M \<noteq> []" "indexOf T0 M = None" "indexOf (held T0 M @ c) M = Some k"
  shows "indexOf (T0 @ c) M = Some (findPartialMatchEndIndex T0 M + k)"
    and "take (findPartialMatchEndIndex T0 M + k) (T0 @ c)
          = take (findPartialMatchEndIndex T0 M) T0 @ take k (held T0 M @ c)"
    and "drop (findPartialMatchEndIndex T0 M + k) (T0 @ c) = drop k (held T0 M @ c)"
proof -
  let ?P = "held T0 M" and ?comb = "held T0 M @ c"
  from held_spec(1)[OF assms(1), of T0] obtain E0 where E0: "T0 = E0 @ ?P"
    "length E0 = findPartialMatchEndIndex T0 M" by blast
  have T1: "T0 @ c = E0 @ ?comb" using E0(1) by simp
  have e0: "take (findPartialMatchEndIndex T0 M) T0 = E0" using E0 by (metis append_eq_conv_conj)
  from indexOf_Some_split[OF assms(3)] have pk: "prefix M (drop k ?comb)" "k \<le> length ?comb"
    by simp_all
  show d: "drop (findPartialMatchEndIndex T0 M + k) (T0 @ c) = drop k ?comb"
    unfolding T1 E0(2)[symmetric] by simp
  show "take (findPartialMatchEndIndex T0 M + k) (T0 @ c)
          = take (findPartialMatchEndIndex T0 M) T0 @ take k ?comb"
    unfolding e0 unfolding T1 E0(2)[symmetric] by simp
  show "indexOf (T0 @ c) M = Some (findPartialMatchEndIndex T0 M + k)"
  proof (rule indexOf_SomeI)
    show "prefix M (drop (findPartialMatchEndIndex T0 M + k) (T0 @ c))" using d pk(1) by simp
    show "findPartialMatchEndIndex T0 M + k \<le> length (T0 @ c)"
      unfolding T1 E0(2)[symmetric] using pk(2) by simp
    fix j assume j: "j < findPartialMatchEndIndex T0 M + k"
    show "\<not> prefix M (drop j (T0 @ c))"
    proof (cases "j < length E0")
      case True
      then show ?thesis using no_early_occurrence[OF assms(1,2)] E0(2) by simp
    next
      case False
      define comb where "comb = held T0 M @ c"
      have "T0 @ c = E0 @ comb" using T1 comb_def by simp
      then have dj: "drop j (T0 @ c) = drop (j - length E0) comb" using False by simp
      have ic: "indexOf comb M = Some k" using assms(3) comb_def by simp
      from False j E0(2) have "j - length E0 < k" by simp
      from indexOf_Some_least[OF ic this] show ?thesis unfolding dj .
    qed
  qed
qed

lemma handle_event_carries:
  assumes "carries P e c"
  shows "handle_event P m st e =
    handle_content m (st\<lparr>lastEnvelope := Some (parseJsonFromEvent P e)\<rparr>) (parseJsonFromEvent P e) c"
  using assms by (simp add: carries_def is_raw_def handle_event_def Let_def)

lemma scan_frame:
  assumes M: "TC_START m \<noteq> []" and c: "carries P e c" and s: "scanned m T0 st"
  shows "\<exists>out st'. handle_event P m st e = ([out], Inr st')
           \<and> emitted m T0 @ push_content out = emitted m (T0 @ c)
           \<and> scanned m (T0 @ c) st' \<and> good_env st'"
proof -
  let ?M = "TC_START m"
  let ?parsed = "parseJsonFromEvent P e"
  let ?st1 = "st\<lparr>lastEnvelope := Some ?parsed\<rparr>"
  from c have ec: "envelope_content ?parsed = Some c" by (simp add: carries_def)
  have he: "handle_event P m st e = handle_content m ?st1 ?parsed c"
    by (rule handle_event_carries[OF c])
  show ?thesis
  proof (cases "indexOf T0 ?M")
    case (Some i)
    with s have b: "bufferingTool st" "toolBuffer st = drop i T0" "pendingText st = []"
      by (simp_all add: scanned_def)
    have i1: "indexOf (T0 @ c) ?M = Some i" by (rule indexOf_append_Some[OF Some])
    from indexOf_Some_split[OF Some] have "i \<le> length T0" by simp
    then have d: "drop i (T0 @ c) = drop i T0 @ c" by simp
    let ?st' = "?st1\<lparr>toolBuffer := toolBuffer ?st1 @ c\<rparr>"
    have h: "handle_event P m st e = ([PushJson (delete_content ?parsed)], Inr ?st')"
      unfolding he using b(1) by (simp add: handle_content_def)
    have e1: "emitted m (T0 @ c) = emitted m T0"
      using Some i1 \<open>i \<le> length T0\<close> by (simp add: emitted_def)
    have "scanned m (T0 @ c) ?st'" using i1 b d by (simp add: scanned_def)
    moreover have "good_env ?st'" using ec by (auto simp: good_env_def)
    ultimately show ?thesis
      using h e1 delete_content_envelope[OF ec] by auto
  next
    case None
    with s have b: "\<not> bufferingTool st" "toolBuffer st = []" "pendingText st = held T0 ?M"
      by (simp_all add: scanned_def)
    define comb where "comb = held T0 ?M @ c"
    show ?thesis
    proof (cases "indexOf comb ?M")
      case n2: None
      define safe where "safe = take (findPartialMatchEndIndex comb ?M) comb"
      from emit_text_envelope[OF ec, of safe] obtain evt where
        ev: "emit_text ?parsed safe = Inr evt" "push_content (PushJson evt) = safe" by blast
      let ?st' = "?st1\<lparr>pendingText := drop (findPartialMatchEndIndex comb ?M) comb\<rparr>"
      have h: "handle_event P m st e = ([PushJson evt], Inr ?st')"
        unfolding he using b n2 ev(1)
        by (simp add: handle_content_def Let_def splitByMarker_def comb_def[symmetric]
            safe_def[symmetric] push_or_throw_def and_then_def)
      from n2 have n2': "indexOf (held T0 ?M @ c) ?M = None" by (simp add: comb_def)
      note st = scan_step_none[OF M None n2']
      have e1: "emitted m T0 @ safe = emitted m (T0 @ c)"
        using None st(1) st(3) by (simp add: emitted_def safe_def comb_def)
      have "scanned m (T0 @ c) ?st'"
        using st(1) st(2) b by (simp add: scanned_def held_def comb_def)
      moreover have "good_env ?st'" using ec by (auto simp: good_env_def)
      ultimately show ?thesis using h e1 ev(2) by auto
    next
      case (Some k)
      define before where "before = take k comb"
      from emit_text_envelope[OF ec, of before] obtain evt where
        ev: "emit_text ?parsed before = Inr evt" "push_content (PushJson evt) = before" by blast
      let ?st' = "?st1\<lparr>toolBuffer := drop k comb, pendingText := [], bufferingTool := True\<rparr>"
      have h: "handle_event P m st e = ([PushJson evt], Inr ?st')"
        unfolding he using b Some ev(1)
        by (simp add: handle_content_def Let_def splitByMarker_def comb_def[symmetric]
            before_def[symmetric] push_or_throw_def and_then_def)
      from Some have s2': "indexOf (held T0 ?M @ c) ?M = Some k" by (simp add: comb_def)
      note st = scan_step_some[OF M None s2']
      have e1: "emitted m T0 @ before = emitted m (T0 @ c)"
        using None st(1) st(2) by (simp add: emitted_def before_def comb_def)
      have "scanned m (T0 @ c) ?st'"
        using st(1) st(3) by (simp add: scanned_def comb_def)
      moreover have "good_env ?st'" using ec by (auto simp: good_env_def)
      ultimately show ?thesis using h e1 ev(2) by auto
    qed
  qed
qed

lemma scan_frames:
  assumes M: "TC_START m \<noteq> []"
  shows "list_all2 (carries P) es cs \<Longrightarrow> scanned m T0 st \<Longrightarrow>
         \<exists>outs st'. process_events P m st es = (outs, Inr st')
           \<and> emitted m T0 @ concat (map push_content outs) = emitted m (T0 @ concat cs)
           \<and> scanned m (T0 @ concat cs) st'
           \<and> (es \<noteq> [] \<or> good_env st \<longrightarrow> good_env st')"
proof (induction es cs arbitrary: T0 st rule: list_all2_induct)
  case Nil
  then show ?case by simp
next
  case (Cons e es c cs)
  from scan_frame[OF M Cons.hyps(1) Cons.prems] obtain out st1 where
    1: "handle_event P m st e = ([out], Inr st1)"
       "emitted m T0 @ push_content out = emitted m (T0 @ c)"
       "scanned m (T0 @ c) st1" "good_env st1" by blast
  from Cons.IH[OF 1(3)] obtain outs st' where
    2: "process_events P m st1 es = (outs, Inr st')"
       "emitted m (T0 @ c) @ concat (map push_content outs) = emitted m ((T0 @ c) @ concat cs)"
       "scanned m ((T0 @ c) @ concat cs) st'"
       "es \<noteq> [] \<or> good_env st1 \<longrightarrow> good_env st'" by blast
  have "process_events P m st (e # es) = (out # outs, Inr st')"
    using 1(1) 2(1) by (simp add: and_then_def)
  moreover have "emitted m T0 @ concat (map push_content (out # outs)) = emitted m (T0 @ concat (c # cs))"
    using 1(2) 2(2) by (metis append.assoc concat.simps(2) list.simps(9))
  moreover have "scanned m (T0 @ concat (c # cs)) st'" using 2(3) by simp
  moreover have "good_env st'" using 2(4) 1(4) by simp
  ultimately show ?case by blast
qed

lemma patch_content_guarded_envelope:
  assumes "envelope_content env = Some c"
  shows "\<exists>evt. patch_content_guarded env t = Inr evt \<and> push_content (PushJson evt) = t"
proof -
  from content_envelope_shape[OF assms] obtain kvs ck others dk where s: "env = JObj kvs"
    "map_of kvs (str ''choices'') = Some (JArr (JObj ck # others))"
    "map_of ck (str ''delta'') = Some (JObj dk)" "map_of dk (str ''content'') = Some (JStr c)"
    by blast
  then have "patch_content_guarded env t = patch_content env t"
    by (simp add: patch_content_guarded_def)
  with patch_content_envelope[OF assms, of t] show ?thesis by simp
qed

lemma inject_envelope:
  assumes "envelope_content env = Some c"
  shows "\<exists>ev. injectToolCallsEvent env calls = Inr ev
           \<and> push_tool_calls (PushJson ev) = Some (JArr (indexed_calls 0 calls))"
proof -
  from content_envelope_shape[OF assms] obtain kvs ck others dk where s: "env = JObj kvs"
    "map_of kvs (str ''choices'') = Some (JArr (JObj ck # others))"
    "map_of ck (str ''delta'') = Some (JObj dk)" "map_of dk (str ''content'') = Some (JStr c)"
    by blast
  define d1 where "d1 = JObj (AList.update (str ''tool_calls'') (JArr (indexed_calls 0 calls)) dk)"
  define c1 where "c1 = JObj (AList.update (str ''finish_reason'') JNull (AList.update (str ''delta'') d1 ck))"
  define ev where "ev = JObj (AList.update (str ''choices'') (JArr (c1 # others)) kvs)"
  have k: "str ''delta'' \<noteq> str ''finish_reason''" by (simp add: str_def)
  have ic: "inject_choice (JObj ck) (indexed_calls 0 calls) = Inr c1"
    using s(3) by (simp add: c1_def d1_def)
  have i: "injectToolCallsEvent env calls = Inr ev"
    unfolding s(1) using s(2) ic by (simp add: ev_def)
  have fd: "first_delta ev = Some d1"
    unfolding first_delta_def ev_def c1_def using k by (simp add: update_conv')
  have "push_tool_calls (PushJson ev) = Some (JArr (indexed_calls 0 calls))"
    unfolding push_tool_calls_def using fd by (simp add: d1_def update_conv')
  with i show ?thesis by blast
qed

lemma rx_search_skip:
  "(\<And>j. j < i \<Longrightarrow> \<not> prefix l (drop j s)) \<Longrightarrow> i \<le> length s \<Longrightarrow>
     rx_search (Lit l # rs) s =
       map_option (\<lambda>(pre, caps, rest). (take i s @ pre, caps, rest)) (rx_search (Lit l # rs) (drop i s))"
proof (induction i arbitrary: s)
  case 0
  show ?case by (cases "rx_search (Lit l # rs) s") auto
next
  case (Suc i)
  from Suc.prems(2) obtain c cs where s: "s = c # cs" by (cases s) auto
  from Suc.prems(1)[of 0] s have np: "\<not> prefix l (c # cs)" by simp
  have p1: "\<And>j. j < i \<Longrightarrow> \<not> prefix l (drop j cs)"
  proof -
    fix j assume "j < i"
    then have "Suc j < Suc i" by simp
    from Suc.prems(1)[OF this] s show "\<not> prefix l (drop j cs)" by simp
  qed
  have p2: "i \<le> length cs" using Suc.prems(2) s by simp
  note ih = Suc.IH[OF p1 p2]
  show ?case
    unfolding s using np ih
    by (cases "rx_search (Lit l # rs) (drop i cs)") auto
qed

lemma parse_from_first_marker:
  assumes M: "TC_START m \<noteq> []" and i: "indexOf T (TC_START m) = Some i"
  shows "concat (map (seg_call P) (scan_segments m T))
           = concat (map (seg_call P) (scan_segments m (drop i T)))"
    and "concat (map seg_gap (scan_segments m T))
           = take i T @ concat (map seg_gap (scan_segments m (drop i T)))"
proof -
  from indexOf_Some_split[OF i] have le: "i \<le> length T" by simp
  have sk: "rx_search (pattern m) T =
       map_option (\<lambda>(pre, caps, rest). (take i T @ pre, caps, rest)) (rx_search (pattern m) (drop i T))"
    unfolding pattern_def
    by (rule rx_search_skip) (use indexOf_Some_least[OF i] le in auto)
  show "concat (map (seg_call P) (scan_segments m T))
           = concat (map (seg_call P) (scan_segments m (drop i T)))"
  proof (cases "rx_search (pattern m) (drop i T)")
    case None
    with sk have "rx_search (pattern m) T = None" by simp
    with None show ?thesis by (simp add: scan_segments_None)
  next
    case (Some x)
    obtain pre caps rest where x: "x = (pre, caps, rest)" by (cases x)
    with Some have a: "rx_search (pattern m) (drop i T) = Some (pre, caps, rest)" by simp
    with sk have b: "rx_search (pattern m) T = Some (take i T @ pre, caps, rest)" by simp
    show ?thesis
      unfolding scan_segments_Some[OF M a] scan_segments_Some[OF M b] by simp
  qed
  show "concat (map seg_gap (scan_segments m T))
           = take i T @ concat (map seg_gap (scan_segments m (drop i T)))"
  proof (cases "rx_search (pattern m) (drop i T)")
    case None
    with sk have "rx_search (pattern m) T = None" by simp
    with None show ?thesis by (simp add: scan_segments_None)
  next
    case (Some x)
    obtain pre caps rest where x: "x = (pre, caps, rest)" by (cases x)
    with Some have a: "rx_search (pattern m) (drop i T) = Some (pre, caps, rest)" by simp
    with sk have b: "rx_search (pattern m) T = Some (take i T @ pre, caps, rest)" by simp
    show ?thesis
      unfolding scan_segments_Some[OF M a] scan_segments_Some[OF M b] by simp
  qed
qed

lemma parse_before_after:
  assumes M: "TC_START m \<noteq> []"
  shows "\<exists>r ra. parse P m T = Some r \<and> parse P m (after_marker m T) = Some ra
           \<and> toolCalls ra = toolCalls r
           \<and> cleanContent ra = trim (replace_all m (after_marker m T))
           \<and> cleanContent r = trim (before_marker m T @ replace_all m (after_marker m T))"
proof (cases "indexOf T (TC_START m)")
  case None
  then have a: "after_marker m T = []" "before_marker m T = T"
    by (simp_all add: after_marker_def before_marker_def)
  from None have "\<not> sublist (TC_START m) T" by (simp add: indexOf_None_iff)
  from no_start_no_match[OF M this] have s: "scan_segments m T = [Gap T]" by (rule scan_segments_None)
  have "\<not> sublist (TC_START m) []" using M by simp
  from no_start_no_match[OF M this] have s0: "scan_segments m [] = [Gap []]" by (rule scan_segments_None)
  show ?thesis
    unfolding a by (simp add: parse_by_segments[OF M] replace_all_segments[OF M] s s0)
next
  case (Some i)
  then have a: "after_marker m T = drop i T" "before_marker m T = take i T"
    by (simp_all add: after_marker_def before_marker_def)
  show ?thesis
    unfolding a
    by (simp add: parse_by_segments[OF M] replace_all_segments[OF M] parse_from_first_marker[OF M Some])
qed

lemma emitted_Nil: "TC_START m \<noteq> [] \<Longrightarrow> emitted m [] = []"
  by (simp add: emitted_def)

lemma scanned_initial: "TC_START m \<noteq> [] \<Longrightarrow> scanned m [] (vars initial_state)"
  by (simp add: scanned_def initial_state_def held_def)

lemma done_after_scan:
  assumes M: "TC_START m \<noteq> []" and s: "scanned m T st" and g: "T \<noteq> [] \<longrightarrow> good_env st"
    and ra: "parse P m (after_marker m T) = Some ra"
  shows "\<exists>pre tool_part. handle_done P m st = (pre @ tool_part @ [PushDone], Inr st)
          \<and> emitted m T @ concat (map push_content pre) = before_marker m T @ cleanContent ra
          \<and> (if toolCalls ra = [] then tool_part = []
              else (\<exists>ev. tool_part = [PushJson ev]
                      \<and> push_tool_calls (PushJson ev) = Some (JArr (indexed_calls 0 (toolCalls ra)))))"
proof (cases "indexOf T (TC_START m)")
  case None
  with s have b: "\<not> bufferingTool st" "toolBuffer st = []" "pendingText st = held T (TC_START m)"
    by (simp_all add: scanned_def)
  from None have am: "after_marker m T = []" "before_marker m T = T"
    "emitted m T = take (findPartialMatchEndIndex T (TC_START m)) T"
    by (simp_all add: after_marker_def before_marker_def emitted_def)
  have "\<not> sublist (TC_START m) []" using M by simp
  from no_start_no_match[OF M this] have "scan_segments m [] = [Gap []]" by (rule scan_segments_None)
  with ra am(1) have r0: "toolCalls ra = []" "cleanContent ra = []"
    by (auto simp: parse_by_segments[OF M] trim_def)
  have split: "emitted m T @ held T (TC_START m) = T" unfolding am(3) held_def by simp
  show ?thesis
  proof (cases "held T (TC_START m) = []")
    case True
    then have "handle_done P m st = ([] @ [] @ [PushDone], Inr st)"
      using b by (simp add: handle_done_def)
    moreover have "emitted m T @ concat (map push_content []) = before_marker m T @ cleanContent ra"
      using split True r0 am(2) by simp
    ultimately show ?thesis using r0(1) by (intro exI[of _ "[]"]) auto
  next
    case False
    then have "T \<noteq> []" by (auto simp: held_def)
    with g obtain env c where env: "lastEnvelope st = Some env" "envelope_content env = Some c"
      by (auto simp: good_env_def)
    from patch_content_envelope[OF env(2), of "held T (TC_START m)"] obtain evt where
      evt: "patch_content env (held T (TC_START m)) = Inr evt"
           "push_content (PushJson evt) = held T (TC_START m)" by blast
    have "handle_done P m st = ([PushJson evt] @ [] @ [PushDone], Inr st)"
      using b False env(1) evt(1) by (simp add: handle_done_def push_or_throw_def and_then_def)
    moreover have "emitted m T @ concat (map push_content [PushJson evt]) = before_marker m T @ cleanContent ra"
      using split evt(2) r0 am(2) by simp
    ultimately show ?thesis using r0(1) by (intro exI[of _ "[PushJson evt]"] exI[of _ "[]"]) auto
  qed
next
  case (Some i)
  with s have b: "bufferingTool st" "toolBuffer st = drop i T" "pendingText st = []"
    by (simp_all add: scanned_def)
  from Some have am: "after_marker m T = drop i T" "before_marker m T = take i T"
    "emitted m T = take i T"
    by (simp_all add: after_marker_def before_marker_def emitted_def)
  from indexOf_Some_split[OF Some] M have ne: "drop i T \<noteq> []" by auto
  then have "T \<noteq> []" by auto
  with g obtain env c where env: "lastEnvelope st = Some env" "envelope_content env = Some c"
    by (auto simp: good_env_def)
  from ra am(1) have p: "parse P m (toolBuffer st) = Some ra" using b(2) by simp
  define pre where "pre = (if cleanContent ra \<noteq> [] then
       [PushJson (projr (patch_content_guarded env (cleanContent ra)))] else [])"
  define tool_part where "tool_part = (if toolCalls ra \<noteq> [] then
       [PushJson (projr (injectToolCallsEvent env (toolCalls ra)))] else [])"
  from patch_content_guarded_envelope[OF env(2), of "cleanContent ra"] obtain evt where
    evt: "patch_content_guarded env (cleanContent ra) = Inr evt"
         "push_content (PushJson evt) = cleanContent ra" by blast
  from inject_envelope[OF env(2), of "toolCalls ra"] obtain ev where
    ev: "injectToolCallsEvent env (toolCalls ra) = Inr ev"
        "push_tool_calls (PushJson ev) = Some (JArr (indexed_calls 0 (toolCalls ra)))" by blast
  have h: "handle_done P m st = (pre @ tool_part @ [PushDone], Inr st)"
    using b(2) ne p env(1) evt(1) ev(1)
    by (simp add: handle_done_def push_or_throw_def and_then_def pre_def tool_part_def)
  have c: "concat (map push_content pre) = cleanContent ra"
    using evt by (simp add: pre_def)
  have t: "if toolCalls ra = [] then tool_part = []
              else (\<exists>ev. tool_part = [PushJson ev]
                      \<and> push_tool_calls (PushJson ev) = Some (JArr (indexed_calls 0 (toolCalls ra))))"
    using ev by (simp add: tool_part_def)
  have "emitted m T @ concat (map push_content pre) = before_marker m T @ cleanContent ra"
    using c am by simp
  with h t show ?thesis by blast
qed



text \<open>
  C3.  Let the contents of a response's text arrive in frames, one non-empty piece per
  frame (in particular one code unit per frame), followed by the sentinel.  Up to and
  including the sentinel the transcoder then pushes: events whose contents, joined, are
  the text before the first call-start token, unchanged, followed by the trimmed
  residual of the text from that token on; then, if \<open>parse\<close> finds calls in the whole
  text, one event that carries exactly these calls, in order; then the sentinel.  The
  residual text of \<open>parse\<close> on the whole text, which the non-stream finisher uses, is
  the trimmed join of the same two parts.
\<close>

theorem stream_frames_done:
  assumes M: "TC_START m \<noteq> []" and fr: "list_all2 (carries P) es cs" and d: "isDoneEvent done"
  shows "\<exists>r ra pre tool_part st'.
      parse P m (concat cs) = Some r
    \<and> parse P m (after_marker m (concat cs)) = Some ra
    \<and> toolCalls ra = toolCalls r
    \<and> cleanContent ra = trim (replace_all m (after_marker m (concat cs)))
    \<and> cleanContent r = trim (before_marker m (concat cs) @ replace_all m (after_marker m (concat cs)))
    \<and> process_events P m (vars initial_state) (es @ [done]) = (pre @ tool_part @ [PushDone], Inr st')
    \<and> concat (map push_content pre) = before_marker m (concat cs) @ cleanContent ra
    \<and> (if toolCalls r = [] then tool_part = []
        else (\<exists>ev. tool_part = [PushJson ev]
                \<and> push_tool_calls (PushJson ev) = Some (JArr (indexed_calls 0 (toolCalls r)))))"
proof -
  let ?T = "concat cs"
  from parse_before_after[OF M, of P ?T] obtain r ra where
    p: "parse P m ?T = Some r" "parse P m (after_marker m ?T) = Some ra"
       "toolCalls ra = toolCalls r"
       "cleanContent ra = trim (replace_all m (after_marker m ?T))"
       "cleanContent r = trim (before_marker m ?T @ replace_all m (after_marker m ?T))"
    by blast
  from scan_frames[OF M fr scanned_initial[OF M]] obtain outs st' where
    sc: "process_events P m (vars initial_state) es = (outs, Inr st')"
        "emitted m [] @ concat (map push_content outs) = emitted m ([] @ ?T)"
        "scanned m ([] @ ?T) st'"
        "es \<noteq> [] \<or> good_env (vars initial_state) \<longrightarrow> good_env st'" by blast
  have g: "?T \<noteq> [] \<longrightarrow> good_env st'"
  proof
    assume "?T \<noteq> []"
    then have "cs \<noteq> []" by auto
    with fr have "es \<noteq> []" by auto
    with sc(4) show "good_env st'" by simp
  qed
  from sc(3) have s': "scanned m ?T st'" by simp
  from done_after_scan[OF M s' g p(2)] obtain pre tool_part where
    dn: "handle_done P m st' = (pre @ tool_part @ [PushDone], Inr st')"
        "emitted m ?T @ concat (map push_content pre) = before_marker m ?T @ cleanContent ra"
        "if toolCalls ra = [] then tool_part = []
              else (\<exists>ev. tool_part = [PushJson ev]
                      \<and> push_tool_calls (PushJson ev) = Some (JArr (indexed_calls 0 (toolCalls ra))))"
    by blast
  have pe: "process_events P m (vars initial_state) (es @ [done]) = ((outs @ pre) @ tool_part @ [PushDone], Inr st')"
    using sc(1) dn(1) d by (simp add: process_events_append and_then_def handle_event_def)
  have ct: "concat (map push_content (outs @ pre)) = before_marker m ?T @ cleanContent ra"
    using sc(2) dn(2) by (simp add: emitted_Nil[OF M])
  have tp: "if toolCalls r = [] then tool_part = []
        else (\<exists>ev. tool_part = [PushJson ev]
                \<and> push_tool_calls (PushJson ev) = Some (JArr (indexed_calls 0 (toolCalls r))))"
    using dn(3) unfolding p(3) .
  show ?thesis
    apply (rule exI[of _ r])
    apply (rule exI[of _ ra])
    apply (rule exI[of _ "outs @ pre"])
    apply (rule exI[of _ tool_part])
    apply (rule exI[of _ st'])
    using p pe ct tp apply simp
    done
qed

lemma concat_units: "concat (map (\<lambda>u. [u]) xs) = xs"
  by (induction xs) simp_all

theorem stream_frames_done_witness:
  "TC_START example_markers \<noteq> []
   \<and> list_all2 (carries example_platform) (unit_events spaced_reply) (map (\<lambda>u. [u]) spaced_reply)
   \<and> isDoneEvent done_event
   \<and> parse example_platform example_markers spaced_reply
       = Some \<lparr>toolCalls = number_calls example_platform 0 [(str ''f'', str ''{}'')],
               cleanContent = str ''a''\<rparr>
   \<and> (\<exists>pre ev st'.
         process_events example_platform example_markers (vars initial_state)
             (unit_events spaced_reply @ [done_event])
           = (pre @ [PushJson ev] @ [PushDone], Inr st')
         \<and> concat (map push_content pre) = str ''a ''
         \<and> push_tool_calls (PushJson ev)
             = Some (JArr (indexed_calls 0 (number_calls example_platform 0 [(str ''f'', str ''{}'')]))))"
proof -
  have h: "TC_START example_markers \<noteq> []" by (simp add: example_markers_eq)
  have fr: "list_all2 (carries example_platform) (unit_events spaced_reply) (map (\<lambda>u. [u]) spaced_reply)"
    by (simp add: unit_events_def spaced_reply_def carries_def is_raw_def stream_eval example_eval)
  have d: "isDoneEvent done_event"
    by (simp add: done_event_def isDoneEvent_def extractDataLines_def trimStart_def Let_def
        example_eval)
  have c: "concat (map (\<lambda>u. [u]) spaced_reply) = spaced_reply"
    by (rule concat_units)
  have p: "parse example_platform example_markers spaced_reply
       = Some \<lparr>toolCalls = number_calls example_platform 0 [(str ''f'', str ''{}'')],
               cleanContent = str ''a''\<rparr>"
    by (simp add: spaced_reply_def inline_block_def example_eval parse_def
        exec_loop.simps replace_all.simps)
  have b: "before_marker example_markers spaced_reply = str ''a ''"
    by (simp add: before_marker_def spaced_reply_def inline_block_def example_eval)
  have a: "after_marker example_markers spaced_reply = inline_block"
    by (simp add: after_marker_def spaced_reply_def inline_block_def example_eval)
  have pa: "parse example_platform example_markers inline_block
       = Some \<lparr>toolCalls = number_calls example_platform 0 [(str ''f'', str ''{}'')],
               cleanContent = []\<rparr>"
    by (simp add: inline_block_def example_eval parse_def exec_loop.simps replace_all.simps)
  from stream_frames_done[OF h fr d] obtain r ra pre tool_part st' where
    t: "parse example_platform example_markers spaced_reply = Some r"
       "parse example_platform example_markers inline_block = Some ra"
       "process_events example_platform example_markers (vars initial_state)
             (unit_events spaced_reply @ [done_event])
           = (pre @ tool_part @ [PushDone], Inr st')"
       "concat (map push_content pre) = str ''a '' @ cleanContent ra"
       "if toolCalls r = [] then tool_part = []
        else (\<exists>ev. tool_part = [PushJson ev]
                \<and> push_tool_calls (PushJson ev) = Some (JArr (indexed_calls 0 (toolCalls r))))"
    unfolding c a b by blast
  from t(1) p have r: "r = \<lparr>toolCalls = number_calls example_platform 0 [(str ''f'', str ''{}'')],
               cleanContent = str ''a''\<rparr>" by simp
  from t(2) pa have ra: "cleanContent ra = []" by auto
  from t(5) r obtain ev where ev: "tool_part = [PushJson ev]"
    "push_tool_calls (PushJson ev)
       = Some (JArr (indexed_calls 0 (number_calls example_platform 0 [(str ''f'', str ''{}'')])))"
    by auto
  from t(3) t(4) ev ra
  have "\<exists>pre ev st'.
         process_events example_platform example_markers (vars initial_state)
             (unit_events spaced_reply @ [done_event])
           = (pre @ [PushJson ev] @ [PushDone], Inr st')
         \<and> concat (map push_content pre) = str ''a ''
         \<and> push_tool_calls (PushJson ev)
             = Some (JArr (indexed_calls 0 (number_calls example_platform 0 [(str ''f'', str ''{}'')])))"
    by auto
  with h fr d p show ?thesis by blast
qed

text \<open>
  The two paths differ in the residual content.  For a reply that is one block with
  arguments that are no JSON, the finisher finds no call and returns the body as it
  came, text and tokens included; fed one code unit per frame, the same text reaches
  the client as no content at all, the block having been removed as a matched region.
\<close>

theorem stream_and_finisher_differ:
  "primary_content (body_with malformed_block) = Some (JStr malformed_block)
   \<and> malformed_block \<noteq> []
   \<and> finish_response example_platform example_markers True (body_with malformed_block)
       = Inr (body_with malformed_block)
   \<and> concat (map push_content
        (fst (process_events example_platform example_markers (vars initial_state)
                (unit_events malformed_block @ [done_event])))) = []
   \<and> last (fst (process_events example_platform example_markers (vars initial_state)
                (unit_events malformed_block @ [done_event]))) = PushDone"
proof -
  have 1: "primary_content (body_with malformed_block) = Some (JStr malformed_block)"
    by (simp add: primary_content_def primary_message_def body_with_def str_def)
  have 2: "malformed_block \<noteq> []" by (simp add: malformed_block_def example_markers_eq)
  have 3: "finish_response example_platform example_markers True (body_with malformed_block)
       = Inr (body_with malformed_block)"
    by (simp add: finish_response_def parse_value_def primary_content_def primary_message_def
        body_with_def malformed_block_def example_eval parse_def exec_loop.simps replace_all.simps)
  have pe: "fst (process_events example_platform example_markers (vars initial_state)
                (unit_events malformed_block @ [done_event]))
            = [contentless, contentless, contentless, contentless, contentless,
               contentless, contentless, contentless, contentless, contentless,
               contentless, contentless, contentless, contentless, contentless,
               contentless, PushDone]"
    by (simp add: unit_events_def done_event_def malformed_block_def stream_eval example_eval
        contentless_def)
  have cc: "push_content contentless = []" "push_content PushDone = []"
    by (simp_all add: contentless_def push_content_def first_delta_def str_def)
  have 4: "concat (map push_content
        (fst (process_events example_platform example_markers (vars initial_state)
                (unit_events malformed_block @ [done_event])))) = []"
    unfolding pe by (simp add: cc)
  have 5: "last (fst (process_events example_platform example_markers (vars initial_state)
                (unit_events malformed_block @ [done_event]))) = PushDone"
    unfolding pe by simp
  from 1 2 3 4 5 show ?thesis by blast
qed

section \<open>Content delivered before the end of the stream\<close>

lemma scan_any_frame:
  assumes M: "TC_START m \<noteq> []" and nd: "\<not> isDoneEvent e" and s: "scanned m T0 st"
  shows "\<exists>out st'. handle_event P m st e = ([out], Inr st')
           \<and> emitted m T0 @ push_content out = emitted m (T0 @ frame_content P e)
           \<and> scanned m (T0 @ frame_content P e) st'"
proof (cases "is_raw P e")
  case True
  then have "handle_event P m st e = ([PushRaw e], Inr st)"
    using nd by (simp add: handle_event_def is_raw_def Let_def)
  moreover have "push_content (PushRaw e) = []" by (simp add: push_content_def)
  moreover have "frame_content P e = []" using True by (simp add: frame_content_def)
  ultimately show ?thesis using s by simp
next
  case nr: False
  let ?parsed = "parseJsonFromEvent P e"
  show ?thesis
  proof (cases "envelope_content ?parsed")
    case None
    let ?st1 = "st\<lparr>lastEnvelope := Some ?parsed\<rparr>"
    have "handle_event P m st e = ([PushJson ?parsed], Inr ?st1)"
      using nd nr None by (simp add: handle_event_def is_raw_def Let_def)
    moreover have "push_content (PushJson ?parsed) = []" by (rule envelope_content_None[OF None])
    moreover have "frame_content P e = []" using nr None by (simp add: frame_content_def)
    moreover have "scanned m T0 ?st1" using s by (simp add: scanned_def split: option.splits)
    ultimately show ?thesis by simp
  next
    case (Some c)
    with nd nr have c: "carries P e c" by (simp add: carries_def)
    have fc: "frame_content P e = c" using nr Some by (simp add: frame_content_def)
    from scan_frame[OF M c s] show ?thesis unfolding fc by blast
  qed
qed

lemma scan_any_frames:
  assumes M: "TC_START m \<noteq> []"
  shows "list_all (\<lambda>e. \<not> isDoneEvent e) es \<Longrightarrow> scanned m T0 st \<Longrightarrow>
         \<exists>outs st'. process_events P m st es = (outs, Inr st')
           \<and> length outs = length es
           \<and> emitted m T0 @ concat (map push_content outs)
               = emitted m (T0 @ concat (map (frame_content P) es))
           \<and> scanned m (T0 @ concat (map (frame_content P) es)) st'"
proof (induction es arbitrary: T0 st)
  case Nil
  then show ?case by simp
next
  case (Cons e es)
  from Cons.prems(1) have nd: "\<not> isDoneEvent e" and nds: "list_all (\<lambda>e. \<not> isDoneEvent e) es"
    by simp_all
  from scan_any_frame[OF M nd Cons.prems(2)] obtain out st1 where
    1: "handle_event P m st e = ([out], Inr st1)"
       "emitted m T0 @ push_content out = emitted m (T0 @ frame_content P e)"
       "scanned m (T0 @ frame_content P e) st1" by blast
  from Cons.IH[OF nds 1(3)] obtain outs st' where
    2: "process_events P m st1 es = (outs, Inr st')"
       "length outs = length es"
       "emitted m (T0 @ frame_content P e) @ concat (map push_content outs)
          = emitted m ((T0 @ frame_content P e) @ concat (map (frame_content P) es))"
       "scanned m ((T0 @ frame_content P e) @ concat (map (frame_content P) es)) st'" by blast
  have "process_events P m st (e # es) = (out # outs, Inr st')"
    using 1(1) 2(1) by (simp add: and_then_def)
  moreover have "length (out # outs) = length (e # es)" using 2(2) by simp
  moreover have "emitted m T0 @ concat (map push_content (out # outs))
      = emitted m (T0 @ concat (map (frame_content P) (e # es)))"
    using 1(2) 2(3) by (metis append.assoc concat.simps(2) list.simps(9))
  moreover have "scanned m (T0 @ concat (map (frame_content P) (e # es))) st'" using 2(4) by simp
  ultimately show ?case by blast
qed

lemma emitted_no_marker:
  assumes M: "TC_START m \<noteq> []"
  shows "\<not> sublist (TC_START m) (emitted m T)"
proof (cases "indexOf T (TC_START m)")
  case None
  then have "\<not> sublist (TC_START m) T" by (simp add: indexOf_None_iff)
  then have "\<not> sublist (TC_START m) (take (findPartialMatchEndIndex T (TC_START m)) T)"
    using sublist_take by blast
  with None show ?thesis by (simp add: emitted_def)
next
  case (Some i)
  have "\<not> sublist (TC_START m) (take i T)"
  proof
    assume "sublist (TC_START m) (take i T)"
    moreover have "take i T = take i (take (i + length (TC_START m) - 1) T)"
      using M by (cases "TC_START m") (auto simp: min_def)
    ultimately have "sublist (TC_START m) (take (i + length (TC_START m) - 1) T)"
      using sublist_take by metis
    with indexOf_first[OF Some M] show False by simp
  qed
  with Some show ?thesis by (simp add: emitted_def)
qed

lemma scanned_withheld:
  assumes M: "TC_START m \<noteq> []" and s: "scanned m T st"
  shows "if sublist (TC_START m) T
         then emitted m T = before_marker m T \<and> T = emitted m T @ toolBuffer st
              \<and> prefix (TC_START m) (toolBuffer st) \<and> bufferingTool st \<and> pendingText st = []
         else T = emitted m T @ pendingText st \<and> strict_prefix (pendingText st) (TC_START m)
              \<and> \<not> bufferingTool st \<and> toolBuffer st = []"
proof (cases "indexOf T (TC_START m)")
  case None
  then have ns: "\<not> sublist (TC_START m) T" by (simp add: indexOf_None_iff)
  from s None have b: "\<not> bufferingTool st" "toolBuffer st = []" "pendingText st = held T (TC_START m)"
    by (simp_all add: scanned_def)
  have "T = emitted m T @ held T (TC_START m)" using None by (simp add: emitted_def held_def)
  moreover have "strict_prefix (held T (TC_START m)) (TC_START m)"
    using held_spec(2,3)[OF M, of T] by (auto simp: strict_prefix_def)
  ultimately show ?thesis using ns b by simp
next
  case (Some i)
  then have ys: "sublist (TC_START m) T" using indexOf_None_iff[of T "TC_START m"] by simp
  from s Some have b: "bufferingTool st" "toolBuffer st = drop i T" "pendingText st = []"
    by (simp_all add: scanned_def)
  have "emitted m T = take i T" "before_marker m T = take i T"
    using Some by (simp_all add: emitted_def before_marker_def)
  moreover have "prefix (TC_START m) (drop i T)" using indexOf_Some_split[OF Some] by simp
  ultimately show ?thesis using ys b by simp
qed

text \<open>
  C2.  Let the chunks written so far hold the complete frames \<open>es\<close>, none of them the
  sentinel, whatever the frames are and however the chunks cut them, and let \<open>T\<close> be
  the contents of these frames, joined.  The transcoder pushes one event per frame and
  does not throw, and the contents of the pushed events, joined, contain no call-start
  token, also none that the frames or the chunks cut.  If \<open>T\<close> contains the token, what
  has been delivered is exactly the text before its first occurrence, and the rest of
  \<open>T\<close>, token first, is in the tool buffer.  Otherwise what has been delivered is \<open>T\<close>
  without a tail that is a proper prefix of the token, and the pending text is this
  tail.
\<close>

theorem run_chunks_hides_call_start:
  assumes M: "TC_START m \<noteq> []"
    and fr: "pushText [] (concat chunks) = (es, rest)"
    and nd: "list_all (\<lambda>e. \<not> isDoneEvent e) es"
  shows "\<exists>outs st'.
      run_chunks P m initial_state chunks = (outs, Inr \<lparr>buffer = rest, vars = st'\<rparr>)
    \<and> length outs = length es
    \<and> \<not> sublist (TC_START m) (concat (map push_content outs))
    \<and> (if sublist (TC_START m) (concat (map (frame_content P) es))
       then concat (map push_content outs) = before_marker m (concat (map (frame_content P) es))
          \<and> concat (map (frame_content P) es) = concat (map push_content outs) @ toolBuffer st'
          \<and> prefix (TC_START m) (toolBuffer st') \<and> bufferingTool st' \<and> pendingText st' = []
       else concat (map (frame_content P) es) = concat (map push_content outs) @ pendingText st'
          \<and> strict_prefix (pendingText st') (TC_START m)
          \<and> \<not> bufferingTool st' \<and> toolBuffer st' = [])"
proof -
  let ?T = "concat (map (frame_content P) es)"
  from scan_any_frames[OF M nd scanned_initial[OF M]] obtain outs st' where
    sc: "process_events P m (vars initial_state) es = (outs, Inr st')"
        "length outs = length es"
        "emitted m [] @ concat (map push_content outs) = emitted m ([] @ ?T)"
        "scanned m ([] @ ?T) st'" by blast
  have j: "concat (map push_content outs) = emitted m ?T"
    using sc(3) by (simp add: emitted_Nil[OF M])
  have "indexOf (buffer initial_state) [10, 10] = None" by (simp add: initial_state_def)
  from run_chunks_concat[OF this]
  have "run_chunks P m initial_state chunks = transform P m initial_state (concat chunks)" .
  also have "\<dots> = (outs, Inr \<lparr>buffer = rest, vars = st'\<rparr>)"
    using fr sc(1) by (simp add: transform_def initial_state_def and_then_def)
  finally have r: "run_chunks P m initial_state chunks = (outs, Inr \<lparr>buffer = rest, vars = st'\<rparr>)" .
  from sc(4) have s': "scanned m ?T st'" by simp
  note w = scanned_withheld[OF M s']
  note n = emitted_no_marker[OF M, of ?T]
  show ?thesis
    apply (rule exI[of _ outs])
    apply (rule exI[of _ st'])
    unfolding j
    using r sc(2) n w apply simp
    done
qed

theorem run_chunks_hides_call_start_witness:
  "TC_START example_markers \<noteq> []
   \<and> pushText [] (concat cut_stream) = ([cut_frame1, cut_frame2], [])
   \<and> \<not> isDoneEvent cut_frame1 \<and> \<not> isDoneEvent cut_frame2
   \<and> concat (map (frame_content example_platform) [cut_frame1, cut_frame2]) = str ''Hi '' @ inline_block
   \<and> fst (run_chunks example_platform example_markers initial_state cut_stream)
       = [PushJson (envelope (str ''Hi '')), contentless]
   \<and> \<not> sublist (TC_START example_markers)
         (concat (map push_content (fst (run_chunks example_platform example_markers initial_state cut_stream))))"
proof -
  have h: "TC_START example_markers \<noteq> []" by (simp add: example_markers_eq)
  have f: "pushText [] (concat cut_stream) = ([cut_frame1, cut_frame2], [])"
    by (simp add: cut_stream_def cut_frame1_def cut_frame2_def stream_eval example_eval)
  have d: "\<not> isDoneEvent cut_frame1" "\<not> isDoneEvent cut_frame2"
    by (simp_all add: cut_frame1_def cut_frame2_def isDoneEvent_def extractDataLines_def
        trimStart_def Let_def inline_block_def example_eval)
  then have nd: "list_all (\<lambda>e. \<not> isDoneEvent e) [cut_frame1, cut_frame2]" by simp
  have c: "concat (map (frame_content example_platform) [cut_frame1, cut_frame2]) = str ''Hi '' @ inline_block"
    by (simp add: frame_content_def is_raw_def cut_frame1_def cut_frame2_def stream_eval example_eval)
  have r: "fst (run_chunks example_platform example_markers initial_state cut_stream)
       = [PushJson (envelope (str ''Hi '')), contentless]"
    by (simp add: cut_stream_def cut_frame1_def cut_frame2_def contentless_def stream_eval example_eval)
  from run_chunks_hides_call_start[OF h f nd, of example_platform] obtain outs st' where
    "run_chunks example_platform example_markers initial_state cut_stream
       = (outs, Inr \<lparr>buffer = [], vars = st'\<rparr>)"
    "\<not> sublist (TC_START example_markers) (concat (map push_content outs))" by blast
  then have "\<not> sublist (TC_START example_markers)
         (concat (map push_content (fst (run_chunks example_platform example_markers initial_state cut_stream))))"
    by simp
  with h f d c r show ?thesis by blast
qed

text \<open>
  At the end of the stream the transcoder delivers what \<open>parse\<close> leaves of the
  buffered text.  A block that never was completed matches nothing, so all of it is
  delivered as content, its call-start and name-start tokens included.
\<close>

theorem flush_delivers_incomplete_block:
  "fst (run_stream example_platform example_markers incomplete_stream)
     = [PushJson (JObj [(str ''choices'', JArr [JObj [(str ''delta'', JObj [])]])]),
        PushJson (envelope incomplete_block)]
   \<and> push_content (PushJson (envelope incomplete_block)) = incomplete_block
   \<and> sublist (TC_START example_markers) incomplete_block
   \<and> sublist (NAME_START example_markers) incomplete_block"
proof -
  have r: "fst (run_stream example_platform example_markers incomplete_stream)
     = [PushJson (JObj [(str ''choices'', JArr [JObj [(str ''delta'', JObj [])]])]),
        PushJson (envelope incomplete_block)]"
    by (simp add: incomplete_stream_def incomplete_block_def stream_eval example_eval)
  have c: "push_content (PushJson (envelope incomplete_block)) = incomplete_block"
    by (simp add: push_content_def first_delta_def envelope_def str_def)
  have s: "sublist (TC_START example_markers) incomplete_block"
    "sublist (NAME_START example_markers) incomplete_block"
    by (simp_all add: incomplete_block_def example_markers_eq sublist_Cons_right prefix_Cons)
  from r c s show ?thesis by blast
qed

section \<open>Properties of the request transformer\<close>

lemma set_dropWhile_keep: "x \<in> set s \<Longrightarrow> \<not> P x \<Longrightarrow> x \<in> set (dropWhile P s)"
  by (induction s) auto

lemma trim_nonempty: "x \<in> set s \<Longrightarrow> \<not> is_ws x \<Longrightarrow> trim s \<noteq> []"
proof -
  assume a: "x \<in> set s" "\<not> is_ws x"
  then have "x \<in> set (dropWhile is_ws s)" by (rule set_dropWhile_keep)
  then have "x \<in> set (rev (dropWhile is_ws s))" by simp
  then have "x \<in> set (dropWhile is_ws (rev (dropWhile is_ws s)))" using a(2) by (rule set_dropWhile_keep)
  then have "dropWhile is_ws (rev (dropWhile is_ws s)) \<noteq> []"
    by (metis empty_iff list.set(1))
  then show ?thesis unfolding trim_def by (metis rev_is_Nil_conv)
qed

lemma prompt_text_nonempty: "prompt_text m ls \<noteq> []"
proof -
  have "\<not> is_ws 35" by (simp add: is_ws_def)
  moreover have "35 \<in> set (str ''## Tool Usage Protocol'')" by (simp add: str_def)
  ultimately show ?thesis unfolding prompt_text_def
    by (intro trim_nonempty[of 35]) simp_all
qed

lemma text_or_empty_JStr: "text_or_empty (Some (JStr s)) = s"
  by (simp add: text_or_empty_def)

lemma strict_equal_JStr: "strict_equal a (Some (JStr s)) \<longleftrightarrow> a = Some (JStr s)"
  by (cases "(a, Some (JStr s))" rule: strict_equal.cases) auto

lemma strict_equal_JStr_left: "strict_equal (Some (JStr s)) b \<longleftrightarrow> b = Some (JStr s)"
  by (cases "(Some (JStr s), b)" rule: strict_equal.cases) auto

lemma merge_loop_tail:
  assumes "msg_role a = Some (JStr ra)" "msg_role u1 = Some (JStr ru)"
    "msg_role u2 = Some (JStr ru)" "ra \<noteq> ru"
  shows "merge_loop acc cur (ys @ [a, u1, u2])
       = merge_loop acc cur (ys @ [a])
         @ [u1\<lparr>msg_content := Some (JStr (text_or_empty (msg_content u1) @ [10, 10]
                                        @ text_or_empty (msg_content u2)))\<rparr>]"
proof (induction ys arbitrary: acc cur)
  case Nil
  have e: "strict_equal (msg_role u2) (msg_role u1)"
    by (simp add: assms(2,3) strict_equal_JStr)
  show ?case
  proof (cases "msg_role cur = Some (JStr ra)")
    case True
    then have 1: "strict_equal (msg_role a) (msg_role cur)"
      by (simp add: assms(1) strict_equal_JStr)
    have 2: "\<not> strict_equal (msg_role u1) (msg_role cur)"
      using True assms(4) by (simp add: assms(2) strict_equal_JStr)
    show ?thesis using 1 2 e by simp
  next
    case False
    then have 1: "\<not> strict_equal (msg_role a) (msg_role cur)"
      by (auto simp add: assms(1) strict_equal_JStr_left)
    have 2: "\<not> strict_equal (msg_role u1) (msg_role a)"
      using assms(4) by (simp add: assms(1,2) strict_equal_JStr)
    show ?thesis using 1 2 e by simp
  qed
next
  case (Cons y ys)
  show ?case by (simp add: Cons.IH)
qed

lemma merge_loop_last:
  assumes "msg_role a = Some (JStr ra)" "msg_content a = Some (JStr ca)"
  shows "\<exists>pre A c. merge_loop acc cur (ys @ [a]) = pre @ [A]
           \<and> msg_role A = Some (JStr ra) \<and> msg_content A = Some (JStr c) \<and> suffix ca c"
proof (induction ys arbitrary: acc cur)
  case Nil
  show ?case
  proof (cases "strict_equal (msg_role a) (msg_role cur)")
    case True
    then have r: "msg_role cur = Some (JStr ra)" using assms(1) by (simp add: strict_equal_JStr_left)
    let ?c = "text_or_empty (msg_content cur) @ [10, 10] @ ca"
    have "merge_loop acc cur ([] @ [a]) = acc @ [cur\<lparr>msg_content := Some (JStr ?c)\<rparr>]"
      using True assms(2) by (simp add: text_or_empty_JStr)
    moreover have "suffix ca ?c" by (simp add: suffix_def)
    ultimately show ?thesis using r by auto
  next
    case False
    then have "merge_loop acc cur ([] @ [a]) = (acc @ [cur]) @ [a]" by simp
    then show ?thesis using assms by blast
  qed
next
  case (Cons y ys)
  show ?case using Cons.IH by simp
qed

lemma mergeAdjacent_tail:
  assumes "msg_role a = Some (JStr ra)" "msg_role u1 = Some (JStr ru)"
    "msg_role u2 = Some (JStr ru)" "ra \<noteq> ru"
  shows "mergeAdjacentMessages (hs @ [a, u1, u2])
       = mergeAdjacentMessages (hs @ [a])
         @ [u1\<lparr>msg_content := Some (JStr (text_or_empty (msg_content u1) @ [10, 10]
                                        @ text_or_empty (msg_content u2)))\<rparr>]"
proof (cases hs)
  case Nil
  have 2: "\<not> strict_equal (msg_role u1) (msg_role a)"
    using assms(4) by (simp add: assms(1,2) strict_equal_JStr)
  have e: "strict_equal (msg_role u2) (msg_role u1)"
    by (simp add: assms(2,3) strict_equal_JStr)
  show ?thesis using Nil 2 e by (simp add: mergeAdjacentMessages_def)
next
  case (Cons h hs')
  then show ?thesis using merge_loop_tail[OF assms, of "[]" h hs']
    by (simp add: mergeAdjacentMessages_def)
qed

lemma mergeAdjacent_last:
  assumes "msg_role a = Some (JStr ra)" "msg_content a = Some (JStr ca)"
  shows "\<exists>pre A c. mergeAdjacentMessages (hs @ [a]) = pre @ [A]
           \<and> msg_role A = Some (JStr ra) \<and> msg_content A = Some (JStr c) \<and> suffix ca c"
proof (cases hs)
  case Nil
  then have "mergeAdjacentMessages (hs @ [a]) = [] @ [a]" by (simp add: mergeAdjacentMessages_def)
  then show ?thesis using assms by blast
next
  case (Cons h hs')
  then show ?thesis using merge_loop_last[OF assms, of "[]" h hs']
    by (simp add: mergeAdjacentMessages_def)
qed

lemma transform_messages_plain:
  assumes "\<not> list_ex (\<lambda>msg. has_role msg (str ''tool'')
                        \<or> (has_role msg (str ''assistant'') \<and> has_calls msg)) msgs"
    and "prompt \<noteq> []"
  shows "transform_messages P m hasTools prompt msgs = Inr (map (extend_system prompt) msgs)"
  using assms(1)
proof (induction msgs)
  case Nil
  show ?case by simp
next
  case (Cons msg msgs)
  then have "transform_message P m hasTools prompt msg = Inr (extend_system prompt msg)"
    using assms(2) by (auto simp: transform_message_def extend_system_def)
  with Cons show ?case by simp
qed


lemma those_snoc: "those (xs @ [Some y]) = map_option (\<lambda>zs. zs @ [y]) (those xs)"
  by (induction xs) (auto split: option.splits simp: option.map_comp comp_def)

lemma plain_message_content:
  "(plain_message role c)\<lparr>msg_content := Some (JStr d)\<rparr> = plain_message role d"
  by (simp add: plain_message_def)

lemma one_shot_messages:
  assumes t: "req_tools r = Some tools" "tools \<noteq> []" "those tools = Some fs"
    and nh: "\<not> hasToolHistory r"
    and ms: "req_messages r = Some (history @ [final])" "has_role final (str ''user'')"
    and pr: "prompt = prompt_text m (join_with [10] (map (tool_line P) (fs @ [SCIFI_TOOL_DEF])))"
  shows "upstream_body P m r
       = Inr (r\<lparr>req_messages := Some
                  (mergeAdjacentMessages
                     ((if list_ex (\<lambda>msg. has_role msg (str ''system'')) history then []
                       else [plain_message (str ''system'') prompt])
                      @ map (extend_system prompt) history
                      @ [plain_message (str ''assistant'') (fakeAssistantContent P m)])
                   @ [plain_message (str ''user'')
                        (fakeToolResult P m @ [10, 10] @ text_or_empty (msg_content final))]),
                req_tools := None, req_tool_choice := None\<rparr>)"
proof -
  let ?raw = "history @ [final]"
  define H where "H = (if list_ex (\<lambda>msg. has_role msg (str ''system'')) history then []
                       else [plain_message (str ''system'') prompt])
                      @ map (extend_system prompt) history"
  define fA where "fA = plain_message (str ''assistant'') (fakeAssistantContent P m)"
  define fU where "fU = plain_message (str ''user'') (fakeToolResult P m)"
  have ht: "requestHasTools_of r" using t(1,2) by (cases tools) (simp_all add: requestHasTools_of_def)
  have ub: "upstream_body P m r = transformRequest P m True r"
    using ht by (simp add: upstream_body_def)
  have fu: "msg_role final = Some (JStr (str ''user''))" using ms(2) by (simp add: has_role_def)
  have fs: "\<not> has_role final (str ''system'')" using fu by (simp add: has_role_def str_def)
  have ne: "prompt \<noteq> []" unfolding pr by (rule prompt_text_nonempty)
  have gp: "getSystemPrompt P m (tools @ [Some SCIFI_TOOL_DEF]) = Inr prompt"
    by (simp add: getSystemPrompt_def those_snoc t(3) pr)
  have nl: "\<not> list_ex (\<lambda>msg. has_role msg (str ''tool'')
                        \<or> (has_role msg (str ''assistant'') \<and> has_calls msg)) ?raw"
    using nh ms(1) by (simp add: hasToolHistory_def)
  have tm: "transform_messages P m True prompt ?raw = Inr (map (extend_system prompt) history @ [final])"
    using transform_messages_plain[OF nl ne, of P m True] fs by (simp add: extend_system_def)
  have hs: "list_ex (\<lambda>msg. has_role msg (str ''system'')) ?raw
            = list_ex (\<lambda>msg. has_role msg (str ''system'')) history"
    using fs by simp
  have ws: "(if \<not> list_ex (\<lambda>msg. has_role msg (str ''system'')) ?raw \<and> prompt \<noteq> []
             then plain_message (str ''system'') prompt # (map (extend_system prompt) history @ [final])
             else map (extend_system prompt) history @ [final]) = H @ [final]"
    unfolding hs H_def using ne by simp
  have tr: "transformRequest P m True r
      = Inr (r\<lparr>req_messages := Some (mergeAdjacentMessages (H @ [fA, fU, final])),
               req_tools := None, req_tool_choice := None\<rparr>)"
    unfolding transformRequest_def Let_def
    using t(1) nh ms gp tm ws by (simp add: fA_def fU_def)
  have roles: "msg_role fA = Some (JStr (str ''assistant''))" "msg_role fU = Some (JStr (str ''user''))"
    by (simp_all add: fA_def fU_def plain_message_def)
  have d: "str ''assistant'' \<noteq> str ''user''" by (simp add: str_def)
  have mg: "mergeAdjacentMessages (H @ [fA, fU, final])
      = mergeAdjacentMessages (H @ [fA])
        @ [plain_message (str ''user'')
             (fakeToolResult P m @ [10, 10] @ text_or_empty (msg_content final))]"
    unfolding mergeAdjacent_tail[OF roles fu d]
    by (simp add: fU_def plain_message_def text_or_empty_JStr)
  show ?thesis unfolding ub tr mg by (simp add: H_def fA_def)
qed

lemmas request_eval = client_message_def has_role_def has_calls_def hasToolHistory_def
  plain_message_def text_or_empty_def mergeAdjacentMessages_def extend_system_def

text \<open>
  C4.  Take a request with a non-empty tool list, each tool with its \<open>function\<close>, no tool
  call and no tool result among its messages, and a final message from the user.  The
  body sent upstream is the request without \<open>tools\<close> and \<open>tool_choice\<close> and with these
  messages: the earlier messages (the prompt, which lists the fictional tool, as a
  system message in front or appended to the system messages) followed by the
  fabricated assistant turn, adjacent messages of one role merged; then one user
  message whose text is the fabricated result, a blank line, and the text of the final
  message.  The message before it is from the assistant and its text ends with the
  fabricated call.  The fabricated user turn and the final user message are thus one
  message, not two.
\<close>

theorem one_shot_merges_final_turn:
  assumes t: "req_tools r = Some tools" "tools \<noteq> []" "those tools = Some fs"
    and nh: "\<not> hasToolHistory r"
    and ms: "req_messages r = Some (history @ [final])" "has_role final (str ''user'')"
  shows "let prompt = prompt_text m (join_with [10] (map (tool_line P) (fs @ [SCIFI_TOOL_DEF])))
         in \<exists>pre A c.
              upstream_body P m r
                = Inr (r\<lparr>req_messages := Some
                           (pre @ [A, plain_message (str ''user'')
                                        (fakeToolResult P m @ [10, 10]
                                         @ text_or_empty (msg_content final))]),
                         req_tools := None, req_tool_choice := None\<rparr>)
            \<and> pre @ [A]
                = mergeAdjacentMessages
                    ((if list_ex (\<lambda>msg. has_role msg (str ''system'')) history then []
                      else [plain_message (str ''system'') prompt])
                     @ map (extend_system prompt) history
                     @ [plain_message (str ''assistant'') (fakeAssistantContent P m)])
            \<and> has_role A (str ''assistant'')
            \<and> msg_content A = Some (JStr c) \<and> suffix (fakeAssistantContent P m) c"
proof -
  define prompt where "prompt = prompt_text m (join_with [10] (map (tool_line P) (fs @ [SCIFI_TOOL_DEF])))"
  define H where "H = (if list_ex (\<lambda>msg. has_role msg (str ''system'')) history then []
                       else [plain_message (str ''system'') prompt])
                      @ map (extend_system prompt) history"
  define fA where "fA = plain_message (str ''assistant'') (fakeAssistantContent P m)"
  note os = one_shot_messages[OF t nh ms prompt_def, folded fA_def]
  have HL: "H @ [fA] = (if list_ex (\<lambda>msg. has_role msg (str ''system'')) history then []
                       else [plain_message (str ''system'') prompt])
                      @ map (extend_system prompt) history @ [fA]"
    by (simp add: H_def)
  have os': "upstream_body P m r
       = Inr (r\<lparr>req_messages := Some
                  (mergeAdjacentMessages (H @ [fA])
                   @ [plain_message (str ''user'')
                        (fakeToolResult P m @ [10, 10] @ text_or_empty (msg_content final))]),
                req_tools := None, req_tool_choice := None\<rparr>)"
    unfolding HL by (rule os)
  have "msg_role fA = Some (JStr (str ''assistant''))" "msg_content fA = Some (JStr (fakeAssistantContent P m))"
    by (simp_all add: fA_def plain_message_def)
  from mergeAdjacent_last[OF this, of H] obtain pre A c where
    l: "mergeAdjacentMessages (H @ [fA]) = pre @ [A]" "msg_role A = Some (JStr (str ''assistant''))"
       "msg_content A = Some (JStr c)" "suffix (fakeAssistantContent P m) c" by blast
  have 1: "upstream_body P m r
                = Inr (r\<lparr>req_messages := Some
                           (pre @ [A, plain_message (str ''user'')
                                        (fakeToolResult P m @ [10, 10]
                                         @ text_or_empty (msg_content final))]),
                         req_tools := None, req_tool_choice := None\<rparr>)"
    unfolding os' l(1) by simp
  have 2: "pre @ [A] = mergeAdjacentMessages
                    ((if list_ex (\<lambda>msg. has_role msg (str ''system'')) history then []
                      else [plain_message (str ''system'') prompt])
                     @ map (extend_system prompt) history @ [fA])"
    unfolding HL[symmetric] l(1) ..
  have 3: "has_role A (str ''assistant'')" using l(2) by (simp add: has_role_def)
  show ?thesis
    unfolding Let_def prompt_def[symmetric] fA_def[symmetric]
    using 1 2 3 l(3,4) by blast
qed

theorem one_shot_merges_final_turn_witness:
  "req_tools later_turn_request = Some [Some weather_tool]
   \<and> [Some weather_tool] \<noteq> []
   \<and> those [Some weather_tool] = Some [weather_tool]
   \<and> \<not> hasToolHistory later_turn_request
   \<and> req_messages later_turn_request
       = Some ([client_message ''user'' ''a'', client_message ''assistant'' ''b'']
               @ [client_message ''user'' ''c''])
   \<and> has_role (client_message ''user'' ''c'') (str ''user'')
   \<and> upstream_body example_platform example_markers later_turn_request
       = Inr (later_turn_request
               \<lparr>req_messages := Some
                  [plain_message (str ''system'') example_prompt,
                   client_message ''user'' ''a'',
                   plain_message (str ''assistant'')
                     (str ''b'' @ [10, 10] @ fakeAssistantContent example_platform example_markers),
                   plain_message (str ''user'')
                     (fakeToolResult example_platform example_markers @ [10, 10] @ str ''c'')],
                req_tools := None, req_tool_choice := None\<rparr>)"
proof -
  have 1: "req_tools later_turn_request = Some [Some weather_tool]"
    by (simp add: later_turn_request_def)
  have 2: "[Some weather_tool] \<noteq> []" by simp
  have 3: "those [Some weather_tool] = Some [weather_tool]" by simp
  have 4: "\<not> hasToolHistory later_turn_request"
    by (simp add: later_turn_request_def request_eval str_def)
  have 5: "req_messages later_turn_request
       = Some ([client_message ''user'' ''a'', client_message ''assistant'' ''b'']
               @ [client_message ''user'' ''c''])"
    by (simp add: later_turn_request_def)
  have 6: "has_role (client_message ''user'' ''c'') (str ''user'')"
    by (simp add: request_eval)
  have d: "str ''a'' \<noteq> []" "str ''b'' \<noteq> []" "str ''c'' \<noteq> []"
    "str ''system'' \<noteq> str ''user''" "str ''user'' \<noteq> str ''system''"
    "str ''assistant'' \<noteq> str ''system''" "str ''assistant'' \<noteq> str ''user''"
    "str ''user'' \<noteq> str ''assistant''"
    by (simp_all add: str_def)
  from one_shot_merges_final_turn[OF 1 2 3 4 5 6, of example_markers example_platform]
  have 7: "upstream_body example_platform example_markers later_turn_request
       = Inr (later_turn_request
               \<lparr>req_messages := Some
                  [plain_message (str ''system'') example_prompt,
                   client_message ''user'' ''a'',
                   plain_message (str ''assistant'')
                     (str ''b'' @ [10, 10] @ fakeAssistantContent example_platform example_markers),
                   plain_message (str ''user'')
                     (fakeToolResult example_platform example_markers @ [10, 10] @ str ''c'')],
                req_tools := None, req_tool_choice := None\<rparr>)"
    unfolding Let_def
    by (auto simp: request_eval d example_prompt_def)
  from 1 2 3 4 5 6 7 show ?thesis by blast
qed

text \<open>
  For a request that is one user message, the body sent upstream has three messages,
  not four: the prompt, the fabricated assistant turn, and one user message that
  holds the fabricated result and the user's text.
\<close>

theorem one_shot_pair_not_separate:
  "upstream_body example_platform example_markers first_turn_request
     = Inr (first_turn_request
             \<lparr>req_messages := Some
                [plain_message (str ''system'') example_prompt,
                 plain_message (str ''assistant'')
                   (fakeAssistantContent example_platform example_markers),
                 plain_message (str ''user'')
                   (fakeToolResult example_platform example_markers @ [10, 10] @ str ''hi'')],
              req_tools := None, req_tool_choice := None\<rparr>)
   \<and> length (the (req_messages (projr
        (upstream_body example_platform example_markers first_turn_request)))) = 3"
proof -
  have 1: "req_tools first_turn_request = Some [Some weather_tool]"
    by (simp add: first_turn_request_def)
  have 2: "[Some weather_tool] \<noteq> []" by simp
  have 3: "those [Some weather_tool] = Some [weather_tool]" by simp
  have 4: "\<not> hasToolHistory first_turn_request"
    by (simp add: first_turn_request_def request_eval str_def)
  have 5: "req_messages first_turn_request = Some ([] @ [client_message ''user'' ''hi''])"
    by (simp add: first_turn_request_def)
  have 6: "has_role (client_message ''user'' ''hi'') (str ''user'')"
    by (simp add: request_eval)
  have d: "str ''hi'' \<noteq> []" "str ''assistant'' \<noteq> str ''system''"
    by (simp_all add: str_def)
  have e: "example_prompt = prompt_text example_markers
       (join_with [10] (map (tool_line example_platform) ([weather_tool] @ [SCIFI_TOOL_DEF])))"
    by (simp add: example_prompt_def)
  have "upstream_body example_platform example_markers first_turn_request
     = Inr (first_turn_request
             \<lparr>req_messages := Some
                [plain_message (str ''system'') example_prompt,
                 plain_message (str ''assistant'')
                   (fakeAssistantContent example_platform example_markers),
                 plain_message (str ''user'')
                   (fakeToolResult example_platform example_markers @ [10, 10] @ str ''hi'')],
              req_tools := None, req_tool_choice := None\<rparr>)"
    unfolding one_shot_messages[OF 1 2 3 4 5 6 e]
    by (simp add: request_eval d)
  then show ?thesis by simp
qed

section \<open>The history of a request without tools\<close>

lemma high_no_ascii:
  assumes "high_token t" "ascii_text g"
  shows "\<not> sublist t g"
proof
  assume "sublist t g"
  then have "set t \<subseteq> set g" by (rule set_mono_sublist)
  moreover from assms(1) obtain u where u: "u \<in> set t" "128 \<le> u"
    by (cases t) (auto simp: high_token_def)
  ultimately have "u \<in> set g" by blast
  with assms(2) have "u < 128" by (simp add: ascii_text_def list_all_iff)
  with u(2) show False by simp
qed

lemma high_skip_left:
  assumes "high_token t" "ascii_text g" "sublist t (g @ b)"
  shows "sublist t b"
  using assms(2,3)
proof (induction g)
  case Nil
  then show ?case by simp
next
  case (Cons c g)
  from Cons.prems(1) have c: "c < 128" and g: "ascii_text g" by (simp_all add: ascii_text_def)
  from assms(1) obtain u us where t: "t = u # us" "128 \<le> u"
    by (cases t) (auto simp: high_token_def)
  from Cons.prems(2) have "prefix t (c # g @ b) \<or> sublist t (g @ b)"
    by (simp add: sublist_Cons_right)
  moreover have "\<not> prefix t (c # g @ b)" using t c by (auto simp: prefix_Cons)
  ultimately show ?case using Cons.IH[OF g] by blast
qed

lemma high_glue:
  assumes "high_token t" "ascii_text g" "g \<noteq> []" "\<not> sublist t a" "\<not> sublist t b"
  shows "\<not> sublist t (a @ g @ b)"
proof
  assume s: "sublist t (a @ g @ b)"
  from assms(1) obtain u us where t: "t = u # us" "128 \<le> u"
    by (cases t) (auto simp: high_token_def)
  from assms(2,3) obtain c g' where g: "g = c # g'" "c < 128" "ascii_text g'"
    by (cases g) (auto simp: ascii_text_def)
  from s have "sublist t a \<or> sublist t (g @ b)
      \<or> (\<exists>xs1 xs2. t = xs1 @ xs2 \<and> suffix xs1 a \<and> prefix xs2 (g @ b))"
    by (simp add: sublist_append)
  moreover have "\<not> sublist t (g @ b)" using high_skip_left[OF assms(1,2)] assms(5) by blast
  moreover have "\<not> (\<exists>xs1 xs2. t = xs1 @ xs2 \<and> suffix xs1 a \<and> prefix xs2 (g @ b))"
  proof
    assume "\<exists>xs1 xs2. t = xs1 @ xs2 \<and> suffix xs1 a \<and> prefix xs2 (g @ b)"
    then obtain xs1 xs2 where x: "t = xs1 @ xs2" "suffix xs1 a" "prefix xs2 (g @ b)" by blast
    show False
    proof (cases xs2)
      case Nil
      with x have "suffix t a" by simp
      then have "sublist t a" by (rule suffix_imp_sublist)
      with assms(4) show False by simp
    next
      case (Cons y ys)
      with x(3) g(1) have "y = c" by (simp add: prefix_Cons)
      moreover have "y \<in> set t" using x(1) Cons by simp
      ultimately have "c \<in> set t" by simp
      with assms(1) have "128 \<le> c" by (auto simp: high_token_def list_all_iff)
      with g(2) show False by simp
    qed
  qed
  ultimately show False using assms(4) by blast
qed

lemma high_append_ascii:
  assumes "high_token t" "ascii_text g" "\<not> sublist t a"
  shows "\<not> sublist t (a @ g)"
proof (cases "g = []")
  case True
  with assms(3) show ?thesis by simp
next
  case False
  from assms(1) have "\<not> sublist t []" by (auto simp: high_token_def)
  from high_glue[OF assms(1,2) False assms(3) this] show ?thesis by simp
qed

lemma to_string_free:
  assumes h: "high_token t"
  shows "\<not> mentions t v \<Longrightarrow> \<not> sublist t (to_string v)"
    and "\<not> mentions_list t xs \<Longrightarrow> \<not> sublist t (to_string_elems xs)"
proof (induction v and xs rule: to_string_to_string_elems.induct)
  case 1
  have "ascii_text (str ''null'')" by (simp add: ascii_text_def str_def)
  from high_no_ascii[OF h this] show ?case by simp
next
  case (2 b)
  have "ascii_text (str ''true'')" "ascii_text (str ''false'')" by (simp_all add: ascii_text_def str_def)
  with high_no_ascii[OF h] show ?case by simp
next
  case (3 n)
  then show ?case by simp
next
  case (4 s)
  then show ?case by simp
next
  case (5 xs)
  then show ?case by simp
next
  case (6 kvs)
  have "ascii_text (str ''[object Object]'')" by (simp add: ascii_text_def str_def)
  from high_no_ascii[OF h this] show ?case by simp
next
  case 7
  from h show ?case by (auto simp: high_token_def)
next
  case (8 x)
  from h have n: "\<not> sublist t []" by (auto simp: high_token_def)
  from 8 n show ?case by auto
next
  case (9 x y ys)
  from h have n: "\<not> sublist t []" by (auto simp: high_token_def)
  have c: "ascii_text (str '','')" "str '','' \<noteq> []" by (simp_all add: ascii_text_def str_def)
  have a: "\<not> sublist t (if x = JNull then [] else to_string x)" using 9 n by auto
  have b: "\<not> sublist t (to_string_elems (y # ys))" using 9 by auto
  from high_glue[OF h c a b] show ?case by simp
qed


lemma pools_high:
  "\<forall>x \<in> set SUFFIX_POOL. list_all (\<lambda>u. 128 \<le> u) x"
  "\<forall>d \<in> set DELIMITER_SETS. list_all (\<lambda>u. 128 \<le> u) (d_open d)
      \<and> list_all (\<lambda>u. 128 \<le> u) (d_close d) \<and> list_all (\<lambda>u. 128 \<le> u) (d_mid d)"
  by (simp_all add: SUFFIX_POOL_def DELIMITER_SETS_def)

lemma generateMarkers_high:
  assumes "r0 < length DELIMITER_SETS" "r1 < length SUFFIX_POOL" "r2 < length SUFFIX_POOL"
  shows "list_all high_token (tokens (generateMarkers r0 r1 r2))"
proof -
  have s: "list_all (\<lambda>u. 128 \<le> u) (SUFFIX_POOL ! r1)" "list_all (\<lambda>u. 128 \<le> u) (SUFFIX_POOL ! r2)"
    using pools_high(1) nth_mem[OF assms(2)] nth_mem[OF assms(3)] by blast+
  have d: "list_all (\<lambda>u. 128 \<le> u) (d_open (DELIMITER_SETS ! r0))"
    "list_all (\<lambda>u. 128 \<le> u) (d_close (DELIMITER_SETS ! r0))"
    "list_all (\<lambda>u. 128 \<le> u) (d_mid (DELIMITER_SETS ! r0))"
    using pools_high(2) nth_mem[OF assms(1)] by blast+
  show ?thesis
    using s d by (simp add: tokens_def generateMarkers_def Let_def high_token_def)
qed

lemma text_or_empty_free:
  assumes "list_all high_token (tokens m)" "json_token_free m x"
  shows "token_free m (text_or_empty x)"
  unfolding token_free_def list_all_iff
proof
  fix t assume t: "t \<in> set (tokens m)"
  with assms(1) have h: "high_token t" by (simp add: list_all_iff)
  then have n: "\<not> sublist t []" by (auto simp: high_token_def)
  show "\<not> sublist t (text_or_empty x)"
  proof (cases x)
    case None
    with n show ?thesis by (simp add: text_or_empty_def)
  next
    case (Some v)
    with assms(2) t have "\<not> mentions t v" by (simp add: json_token_free_def list_all_iff)
    from to_string_free(1)[OF h this] n Some show ?thesis by (simp add: text_or_empty_def)
  qed
qed

lemma called_names_listed: "called_names tcs = join_with (str '', '') (listed_names tcs)"
proof -
  have "map template_text
          (filter truthy_opt (map (\<lambda>tc. case tc of None \<Rightarrow> None | Some f \<Rightarrow> cf_name f) tcs))
        = listed_names tcs"
  proof (induction tcs)
    case Nil
    show ?case by simp
  next
    case (Cons tc tcs)
    show ?case
    proof (cases tc)
      case None
      with Cons show ?thesis by simp
    next
      case (Some f)
      with Cons show ?thesis by (cases "cf_name f") (simp_all add: template_text_def)
    qed
  qed
  then show ?thesis by (simp add: called_names_def)
qed

lemma join_with_free:
  assumes "high_token t" "ascii_text sep" "sep \<noteq> []"
  shows "\<forall>s \<in> set xs. \<not> sublist t s \<Longrightarrow> \<not> sublist t (join_with sep xs)"
proof (induction xs rule: induct_list012)
  case 1
  from assms(1) show ?case by (auto simp: high_token_def)
next
  case (2 x)
  then show ?case by simp
next
  case (3 x y zs)
  then have a: "\<not> sublist t x" and b: "\<not> sublist t (join_with sep (y # zs))" by simp_all
  from high_glue[OF assms a b] show ?case by simp
qed

lemma listed_names_free:
  assumes "list_all high_token (tokens m)"
    and "list_all (\<lambda>tc. case tc of None \<Rightarrow> True | Some f \<Rightarrow> json_token_free m (cf_name f)) tcs"
    and "t \<in> set (tokens m)"
  shows "\<forall>s \<in> set (listed_names tcs). \<not> sublist t s"
  using assms(2)
proof (induction tcs rule: listed_names.induct)
  case 1
  show ?case by simp
next
  case (2 tcs)
  then show ?case by simp
next
  case (3 f tcs)
  from assms(1,3) have h: "high_token t" by (simp add: list_all_iff)
  show ?case
  proof (cases "cf_name f")
    case None
    with 3 show ?thesis by simp
  next
    case (Some n)
    with "3.prems" assms(3) have "\<not> mentions t n" by (simp add: json_token_free_def list_all_iff)
    from to_string_free(1)[OF h this] 3 Some show ?thesis by simp
  qed
qed

lemma result_name_free:
  assumes "list_all high_token (tokens m)" "json_token_free m (msg_name msg)"
    "json_token_free m (msg_tool_call_id msg)"
  shows "token_free m (result_name msg)"
proof -
  have u: "ascii_text (str ''unknown'')" by (simp add: ascii_text_def str_def)
  have "token_free m (str ''unknown'')"
    unfolding token_free_def list_all_iff
    using assms(1) high_no_ascii[OF _ u] by (auto simp: list_all_iff)
  moreover have "truthy_opt x \<Longrightarrow> json_token_free m x \<Longrightarrow> token_free m (to_string (the x))" for x
    using text_or_empty_free[OF assms(1), of x] by (simp add: text_or_empty_def)
  ultimately show ?thesis using assms(2,3) by (simp add: result_name_def)
qed

lemma tidy_plain:
  "token_free m s \<Longrightarrow> tidy m (plain_message role s)"
  by (simp add: tidy_def plain_message_def has_calls_def json_token_free_def token_free_def)

lemma token_free_glue:
  assumes "list_all high_token (tokens m)" "ascii_text g" "g \<noteq> []"
    "token_free m a" "token_free m b"
  shows "token_free m (a @ g @ b)"
  unfolding token_free_def list_all_iff
proof
  fix t assume t: "t \<in> set (tokens m)"
  with assms(1) have h: "high_token t" by (simp add: list_all_iff)
  from assms(4,5) t have "\<not> sublist t a" "\<not> sublist t b" by (simp_all add: token_free_def list_all_iff)
  from high_glue[OF h assms(2,3) this] show "\<not> sublist t (a @ g @ b)" .
qed

lemma token_free_Nil: "list_all high_token (tokens m) \<Longrightarrow> token_free m []"
  by (auto simp: token_free_def list_all_iff high_token_def)

lemma token_free_ascii: "list_all high_token (tokens m) \<Longrightarrow> ascii_text g \<Longrightarrow> token_free m g"
  using high_no_ascii by (auto simp: token_free_def list_all_iff)

lemma history_note_tidy:
  assumes ht: "list_all high_token (tokens m)"
    and cl: "clean_message P m msg" and ca: "has_calls msg \<longrightarrow> has_role msg (str ''assistant'')"
  shows "tidy m (history_note P msg)"
proof -
  from cl have c: "json_token_free m (msg_content msg)" "json_token_free m (msg_name msg)"
    "json_token_free m (msg_tool_call_id msg)"
    "has_role msg (str ''tool'') \<longrightarrow> token_free m (result_text P msg)"
    by (simp_all add: clean_message_def)
  note tc = text_or_empty_free[OF ht c(1)]
  show ?thesis
  proof (cases "has_role msg (str ''system'')")
    case True
    then show ?thesis using tc by (simp add: history_note_def tidy_plain)
  next
    case ns: False
    show ?thesis
    proof (cases "has_role msg (str ''assistant'') \<and> has_calls msg")
      case True
      then obtain tcs where tcs: "msg_tool_calls msg = Some tcs"
        by (auto simp: has_calls_def split: option.splits)
      with cl have nm: "list_all (\<lambda>tc. case tc of None \<Rightarrow> True | Some f \<Rightarrow> json_token_free m (cf_name f)) tcs"
        by (simp add: clean_message_def)
      have sep: "ascii_text (str '', '')" "str '', '' \<noteq> []" by (simp_all add: ascii_text_def str_def)
      have names: "token_free m (join_with (str '', '') (listed_names tcs))"
        unfolding token_free_def list_all_iff
      proof
        fix t assume t: "t \<in> set (tokens m)"
        with ht have h: "high_token t" by (simp add: list_all_iff)
        from join_with_free[OF h sep listed_names_free[OF ht nm t]]
        show "\<not> sublist t (join_with (str '', '') (listed_names tcs))" .
      qed
      have g1: "ascii_text ([10, 10] @ str ''[Called tools: '')" "[10, 10] @ str ''[Called tools: '' \<noteq> []"
        by (simp_all add: ascii_text_def str_def)
      have g2: "ascii_text (str '']'')" "str '']'' \<noteq> []" by (simp_all add: ascii_text_def str_def)
      have "token_free m (join_with (str '', '') (listed_names tcs) @ str '']'' @ [])"
        by (rule token_free_glue[OF ht g2 names token_free_Nil[OF ht]])
      from token_free_glue[OF ht g1 tc this]
      have tf: "token_free m (text_or_empty (msg_content msg) @ [10, 10] @ str ''[Called tools: ''
           @ join_with (str '', '') (listed_names tcs) @ str '']'')" by simp
      have "history_note P msg = plain_message (str ''assistant'')
           (text_or_empty (msg_content msg) @ [10, 10] @ str ''[Called tools: ''
           @ join_with (str '', '') (listed_names tcs) @ str '']'')"
        using ns True tcs by (simp add: history_note_def)
      then show ?thesis using tidy_plain[OF tf] by simp
    next
      case na: False
      show ?thesis
      proof (cases "has_role msg (str ''tool'')")
        case True
        with c(4) have rt: "token_free m (result_text P msg)" by simp
        note rn = result_name_free[OF ht c(2,3)]
        have g1: "ascii_text (str ''[Tool result: '')" "str ''[Tool result: '' \<noteq> []"
          by (simp_all add: ascii_text_def str_def)
        have g2: "ascii_text (str '']'' @ [10])" "str '']'' @ [10] \<noteq> []"
          by (simp_all add: ascii_text_def str_def)
        have "token_free m (result_name msg @ (str '']'' @ [10]) @ result_text P msg)"
          by (rule token_free_glue[OF ht g2 rn rt])
        from token_free_glue[OF ht g1 token_free_Nil[OF ht] this]
        have tf: "token_free m (str ''[Tool result: '' @ result_name msg @ str '']'' @ [10] @ result_text P msg)"
          by simp
        have "history_note P msg = plain_message (str ''user'')
            (str ''[Tool result: '' @ result_name msg @ str '']'' @ [10] @ result_text P msg)"
          using ns na True by (auto simp: history_note_def)
        then show ?thesis using tidy_plain[OF tf] by simp
      next
        case False
        with ns na have "history_note P msg = msg" by (auto simp: history_note_def)
        moreover have "\<not> has_calls msg" using ca na by blast
        ultimately show ?thesis using c(1) by (simp add: tidy_def)
      qed
    qed
  qed
qed

lemma merge_loop_tidy:
  assumes ht: "list_all high_token (tokens m)"
  shows "list_all (tidy m) acc \<Longrightarrow> tidy m cur \<Longrightarrow> list_all (tidy m) rest
         \<Longrightarrow> list_all (tidy m) (merge_loop acc cur rest)"
proof (induction rest arbitrary: acc cur)
  case Nil
  then show ?case by simp
next
  case (Cons msg rest)
  from Cons.prems have q: "tidy m msg" "list_all (tidy m) rest" by simp_all
  have g: "ascii_text [10, 10]" "[10, 10] \<noteq> ([]::jsstring)" by (simp_all add: ascii_text_def)
  have "token_free m (text_or_empty (msg_content cur) @ [10, 10] @ text_or_empty (msg_content msg))"
    using token_free_glue[OF ht g] text_or_empty_free[OF ht] Cons.prems(2) q(1)
    by (simp add: tidy_def)
  then have "tidy m (cur\<lparr>msg_content := Some (JStr (text_or_empty (msg_content cur) @ [10, 10]
                            @ text_or_empty (msg_content msg)))\<rparr>)"
    using Cons.prems(2) by (simp add: tidy_def has_calls_def json_token_free_def token_free_def)
  from Cons.IH[OF Cons.prems(1) this q(2)] Cons.IH[of "acc @ [cur]" msg] Cons.prems q
  show ?case by simp
qed

lemma mergeAdjacent_tidy:
  assumes "list_all high_token (tokens m)" "list_all (tidy m) msgs"
  shows "list_all (tidy m) (mergeAdjacentMessages msgs)"
proof (cases msgs)
  case Nil
  then show ?thesis by (simp add: mergeAdjacentMessages_def)
next
  case (Cons a as)
  with assms(2) merge_loop_tidy[OF assms(1), of "[]" a as] show ?thesis
    by (simp add: mergeAdjacentMessages_def)
qed

lemma transform_messages_notes:
  "transform_messages P m False [] msgs = Inr (map (history_note P) msgs)"
proof (induction msgs)
  case Nil
  show ?case by simp
next
  case (Cons msg msgs)
  have "transform_message P m False [] msg = Inr (history_note P msg)"
    by (simp add: transform_message_def history_note_def called_names_listed)
  with Cons show ?case by simp
qed

lemma history_body:
  assumes "\<not> requestHasTools_of r" "hasToolHistory r" "req_messages r = Some raw"
  shows "upstream_body P m r
           = Inr (r\<lparr>req_messages := Some (mergeAdjacentMessages (map (history_note P) raw)),
                    req_tools := None, req_tool_choice := None\<rparr>)"
proof -
  have "upstream_body P m r = transformRequest P m False r"
    using assms(1,2) by (simp add: upstream_body_def)
  also have "\<dots> = Inr (r\<lparr>req_messages := Some (mergeAdjacentMessages (map (history_note P) raw)),
                    req_tools := None, req_tool_choice := None\<rparr>)"
    by (simp add: transformRequest_def Let_def assms(3) transform_messages_notes)
  finally show ?thesis .
qed

lemmas history_eval = calling_message_def result_message_def named_result_message_def
  history_note_def result_name_def result_text_def

text \<open>
  C8.  Take a request with an empty tool list and a tool history, with a generated
  marker set, whose messages are clean and bear calls only when they are from the
  assistant.  The body sent upstream is the request without \<open>tools\<close> and \<open>tool_choice\<close>
  whose messages are the notes of the messages, adjacent messages of one role merged:
  an assistant message that bore calls is its text, a blank line and
  \<open>[Called tools: \<dots>]\<close> with the names of the calls, a tool message is a user message
  \<open>[Tool result: name]\<close> followed by the text of the result.  No message of the body
  bears a call, and no token of the marker set occurs in the content of a message.
\<close>

theorem history_cleanup:
  assumes g: "r0 < length DELIMITER_SETS" "r1 < length SUFFIX_POOL" "r2 < length SUFFIX_POOL"
    and nt: "\<not> requestHasTools_of r" and h: "hasToolHistory r"
    and ms: "req_messages r = Some raw"
    and cl: "list_all (\<lambda>msg. clean_message P (generateMarkers r0 r1 r2) msg
                          \<and> (has_calls msg \<longrightarrow> has_role msg (str ''assistant''))) raw"
  shows "upstream_body P (generateMarkers r0 r1 r2) r
           = Inr (r\<lparr>req_messages := Some (mergeAdjacentMessages (map (history_note P) raw)),
                    req_tools := None, req_tool_choice := None\<rparr>)
       \<and> list_all (\<lambda>msg. \<not> has_calls msg
                         \<and> json_token_free (generateMarkers r0 r1 r2) (msg_content msg))
           (mergeAdjacentMessages (map (history_note P) raw))"
proof -
  let ?m = "generateMarkers r0 r1 r2"
  note ht = generateMarkers_high[OF g]
  have 1: "upstream_body P ?m r
           = Inr (r\<lparr>req_messages := Some (mergeAdjacentMessages (map (history_note P) raw)),
                    req_tools := None, req_tool_choice := None\<rparr>)"
    by (rule history_body[OF nt h ms])
  have "list_all (tidy ?m) (map (history_note P) raw)"
    using cl history_note_tidy[OF ht] by (simp add: list_all_iff)
  from mergeAdjacent_tidy[OF ht this]
  have 2: "list_all (\<lambda>msg. \<not> has_calls msg \<and> json_token_free ?m (msg_content msg))
           (mergeAdjacentMessages (map (history_note P) raw))"
    by (simp add: tidy_def[abs_def])
  from 1 2 show ?thesis by blast
qed

theorem history_cleanup_witness:
  "(0::nat) < length DELIMITER_SETS \<and> (0::nat) < length SUFFIX_POOL
   \<and> \<not> requestHasTools_of history_request
   \<and> hasToolHistory history_request
   \<and> req_messages history_request
       = Some [client_message ''user'' ''weather?'', calling_message, result_message,
               named_result_message, client_message ''user'' ''thanks'']
   \<and> list_all (\<lambda>msg. clean_message example_platform (generateMarkers 0 0 0) msg)
        [client_message ''user'' ''weather?'', calling_message, result_message,
         named_result_message, client_message ''user'' ''thanks'']
   \<and> upstream_body example_platform (generateMarkers 0 0 0) history_request
       = Inr (history_request
               \<lparr>req_messages := Some
                  [client_message ''user'' ''weather?'',
                   plain_message (str ''assistant'')
                     ([10, 10] @ str ''[Called tools: get_weather, get_time]''),
                   plain_message (str ''user'')
                     (str ''[Tool result: call_1]'' @ [10] @ str ''sunny'' @ [10, 10]
                      @ str ''[Tool result: get_time]'' @ [10] @ str ''noon'' @ [10, 10]
                      @ str ''thanks'')],
                req_tools := None, req_tool_choice := None\<rparr>)
   \<and> list_all (\<lambda>msg. \<not> has_calls msg
                     \<and> json_token_free (generateMarkers 0 0 0) (msg_content msg))
        (the (req_messages (projr
           (upstream_body example_platform (generateMarkers 0 0 0) history_request))))"
proof -
  let ?raw = "[client_message ''user'' ''weather?'', calling_message, result_message,
               named_result_message, client_message ''user'' ''thanks'']"
  have g: "(0::nat) < length DELIMITER_SETS" "(0::nat) < length SUFFIX_POOL"
    by (simp_all add: DELIMITER_SETS_def SUFFIX_POOL_def)
  have nt: "\<not> requestHasTools_of history_request"
    by (simp add: requestHasTools_of_def history_request_def)
  have h: "hasToolHistory history_request"
    by (simp add: history_request_def request_eval history_eval str_def)
  have ms: "req_messages history_request = Some ?raw" by (simp add: history_request_def)
  have me: "generateMarkers 0 0 0 = example_markers" by (simp add: example_markers_def)
  have cl0: "list_all (\<lambda>msg. clean_message example_platform (generateMarkers 0 0 0) msg) ?raw"
    unfolding me
    by (simp add: clean_message_def json_token_free_def token_free_def tokens_def
        example_markers_eq request_eval history_eval str_def sublist_Cons_right prefix_Cons)
  have ca: "list_all (\<lambda>msg. has_calls msg \<longrightarrow> has_role msg (str ''assistant'')) ?raw"
    by (simp add: request_eval history_eval)
  from cl0 ca
  have cl: "list_all (\<lambda>msg. clean_message example_platform (generateMarkers 0 0 0) msg
                          \<and> (has_calls msg \<longrightarrow> has_role msg (str ''assistant''))) ?raw"
    by (simp add: list_all_iff)
  have ev: "mergeAdjacentMessages (map (history_note example_platform) ?raw)
      = [client_message ''user'' ''weather?'',
                   plain_message (str ''assistant'')
                     ([10, 10] @ str ''[Called tools: get_weather, get_time]''),
                   plain_message (str ''user'')
                     (str ''[Tool result: call_1]'' @ [10] @ str ''sunny'' @ [10, 10]
                      @ str ''[Tool result: get_time]'' @ [10] @ str ''noon'' @ [10, 10]
                      @ str ''thanks'')]"
    by (simp add: request_eval history_eval str_def)
  note t = history_cleanup[OF g(1) g(2) g(2) nt h ms cl]
  from t have 1: "upstream_body example_platform (generateMarkers 0 0 0) history_request
       = Inr (history_request
               \<lparr>req_messages := Some
                  [client_message ''user'' ''weather?'',
                   plain_message (str ''assistant'')
                     ([10, 10] @ str ''[Called tools: get_weather, get_time]''),
                   plain_message (str ''user'')
                     (str ''[Tool result: call_1]'' @ [10] @ str ''sunny'' @ [10, 10]
                      @ str ''[Tool result: get_time]'' @ [10] @ str ''noon'' @ [10, 10]
                      @ str ''thanks'')],
                req_tools := None, req_tool_choice := None\<rparr>)"
    unfolding ev by simp
  from t have 2: "list_all (\<lambda>msg. \<not> has_calls msg
                     \<and> json_token_free (generateMarkers 0 0 0) (msg_content msg))
        (the (req_messages (projr
           (upstream_body example_platform (generateMarkers 0 0 0) history_request))))"
    by simp
  from g nt h ms cl0 1 2 show ?thesis by blast
qed

text \<open>
  The transformer hands the text of a user message on as it is: a call-start token
  that a message of the request quotes is in the body sent upstream.
\<close>

theorem history_keeps_quoted_token:
  "\<not> requestHasTools_of quoting_request \<and> hasToolHistory quoting_request
   \<and> upstream_body example_platform example_markers quoting_request
       = Inr (quoting_request
               \<lparr>req_messages := Some
                  [quoting_message,
                   plain_message (str ''assistant'') ([10, 10] @ str ''[Called tools: get_weather, get_time]''),
                   plain_message (str ''user'') (str ''[Tool result: call_1]'' @ [10] @ str ''sunny'')],
                req_tools := None, req_tool_choice := None\<rparr>)
   \<and> msg_content quoting_message
       = Some (JStr (str ''what is '' @ TC_START example_markers @ str ''?''))
   \<and> sublist (TC_START example_markers) (str ''what is '' @ TC_START example_markers @ str ''?'')"
proof -
  have nt: "\<not> requestHasTools_of quoting_request"
    by (simp add: requestHasTools_of_def quoting_request_def)
  have h: "hasToolHistory quoting_request"
    by (simp add: quoting_request_def quoting_message_def request_eval history_eval str_def)
  have ms: "req_messages quoting_request = Some [quoting_message, calling_message, result_message]"
    by (simp add: quoting_request_def)
  have ev: "mergeAdjacentMessages (map (history_note example_platform)
              [quoting_message, calling_message, result_message])
      = [quoting_message,
         plain_message (str ''assistant'') ([10, 10] @ str ''[Called tools: get_weather, get_time]''),
         plain_message (str ''user'') (str ''[Tool result: call_1]'' @ [10] @ str ''sunny'')]"
    by (simp add: quoting_message_def request_eval history_eval str_def)
  have 1: "upstream_body example_platform example_markers quoting_request
       = Inr (quoting_request
               \<lparr>req_messages := Some
                  [quoting_message,
                   plain_message (str ''assistant'') ([10, 10] @ str ''[Called tools: get_weather, get_time]''),
                   plain_message (str ''user'') (str ''[Tool result: call_1]'' @ [10] @ str ''sunny'')],
                req_tools := None, req_tool_choice := None\<rparr>)"
    unfolding history_body[OF nt h ms] ev ..
  have 2: "msg_content quoting_message
       = Some (JStr (str ''what is '' @ TC_START example_markers @ str ''?''))"
    by (simp add: quoting_message_def)
  have 3: "sublist (TC_START example_markers) (str ''what is '' @ TC_START example_markers @ str ''?'')"
    by (rule sublist_appendI)
  from nt h 1 2 3 show ?thesis by blast
qed

end
